theory Spec2Isabelle
  imports Main "HOL-Library.Word" "HOL-Library.Monad_Syntax"
begin

unbundle bit_operations_syntax

section \<open>Data model of inplace.hpp\<close>

text \<open>
  Cells are \<open>long long\<close>. The code never does arithmetic on a cell: it copies cells,
  compares them, tests their low bits and converts between a cell and an index that is
  smaller than the size of the vector. Cells are therefore modelled as \<open>int\<close>, a
  superset of the 64-bit values. Indices and block numbers are \<open>std::size_t\<close> values
  bounded by the size of the vector and are modelled as \<open>nat\<close>. The statistics
  counters are \<open>std::size_t\<close> values that are only ever incremented; they are 64-bit
  words, the stamps of the verifier are \<open>std::uint32_t\<close>, 32-bit words.

  The exceptions are the error values: the constructors throw \<open>std::invalid_argument\<close>
  (InvalidSize), read and write throw \<open>std::out_of_range\<close> (IndexOutOfRange), and the
  constructor of \<open>std::vector\<close> throws \<open>std::length_error\<close> (LengthError) or
  \<open>std::bad_alloc\<close> (OutOfMemory).
\<close>

type_synonym cell = int

datatype error = InvalidSize | IndexOutOfRange | LengthError | OutOfMemory

record Counters =
  reads :: "64 word"
  writes :: "64 word"
  inits :: "64 word"
  relocations :: "64 word"
  conversions :: "64 word"

definition Counters0 :: Counters where
  "Counters0 = \<lparr>reads = 0, writes = 0, inits = 0, relocations = 0, conversions = 0\<rparr>"

text \<open>
  \<open>operator[]\<close> of \<open>std::vector\<close> is defined only inside the storage. An access outside
  it is undefined behaviour in the source; in the model it is the value \<open>None\<close>, and
  every function that touches a vector returns an option.
\<close>

definition vec_get :: "'a list \<Rightarrow> nat \<Rightarrow> 'a option" where
  "vec_get xs i = (if i < length xs then Some (xs ! i) else None)"

definition vec_set :: "'a list \<Rightarrow> nat \<Rightarrow> 'a \<Rightarrow> 'a list option" where
  "vec_set xs i v = (if i < length xs then Some (xs[i := v]) else None)"

text \<open>
  \<open>std::vector<long long>(n, 0)\<close>, the initialiser of \<open>A\<close> and of \<open>data\<close>. The
  constructor of the vector throws \<open>std::length_error\<close> when \<open>n\<close> exceeds
  \<open>max_size()\<close>, and \<open>std::bad_alloc\<close> when the allocator does not provide the
  storage; a vector of size 0 allocates nothing. Both limits belong to the platform the
  program runs on: \<open>vec_max_size\<close> is \<open>max_size()\<close>, \<open>alloc_limit\<close> the
  largest number of cells the allocator grants to one request. A request is granted
  according to its size alone; the memory in use is not tracked.
\<close>

record platform =
  vec_max_size :: nat
  alloc_limit :: nat

definition vector_new :: "platform \<Rightarrow> nat \<Rightarrow> error + cell list" where
  "vector_new pf n =
     (if n > vec_max_size pf then Inl LengthError
      else if n > alloc_limit pf then Inl OutOfMemory
      else Inr (replicate n 0))"

subsection \<open>StdVectorWrapper\<close>

record StdVectorWrapper =
  sv_N :: nat
  data :: "cell list"
  sv_ctr :: Counters
  sv_verifying :: bool
  initv_shadow :: cell
  epoch :: "64 word"

text \<open>
  The constructor of the baseline initialises \<open>N\<close> and \<open>data\<close> and has an empty
  body: it checks nothing, and fails only when the vector cannot be created.
\<close>

definition StdVectorWrapper_new :: "platform \<Rightarrow> nat \<Rightarrow> error + StdVectorWrapper" where
  "StdVectorWrapper_new pf n =
     (case vector_new pf n of
        Inl e \<Rightarrow> Inl e
      | Inr d \<Rightarrow> Inr \<lparr>sv_N = n, data = d, sv_ctr = Counters0, sv_verifying = False,
                      initv_shadow = 0, epoch = 0\<rparr>)"

definition sv_init :: "StdVectorWrapper \<Rightarrow> cell \<Rightarrow> StdVectorWrapper" where
  "sv_init s v =
     s\<lparr>sv_ctr := (sv_ctr s)\<lparr>inits := inits (sv_ctr s) + 1\<rparr>,
       data := replicate (length (data s)) v,
       initv_shadow := v,
       epoch := epoch s + 1\<rparr>"

definition sv_read :: "StdVectorWrapper \<Rightarrow> nat \<Rightarrow> (StdVectorWrapper \<times> (error + cell)) option" where
  "sv_read s i =
     (let s1 = s\<lparr>sv_ctr := (sv_ctr s)\<lparr>reads := reads (sv_ctr s) + 1\<rparr>\<rparr> in
      if i \<ge> sv_N s1 then Some (s1, Inl IndexOutOfRange)
      else do { x \<leftarrow> vec_get (data s1) i; Some (s1, Inr x) })"

definition sv_write :: "StdVectorWrapper \<Rightarrow> nat \<Rightarrow> cell \<Rightarrow> (StdVectorWrapper \<times> (error + unit)) option" where
  "sv_write s i v =
     (let s1 = s\<lparr>sv_ctr := (sv_ctr s)\<lparr>writes := writes (sv_ctr s) + 1\<rparr>\<rparr> in
      if i \<ge> sv_N s1 then Some (s1, Inl IndexOutOfRange)
      else do { d \<leftarrow> vec_set (data s1) i v; Some (s1\<lparr>data := d\<rparr>, Inr ()) })"

definition sv_enable_verification :: "StdVectorWrapper \<Rightarrow> StdVectorWrapper" where
  "sv_enable_verification s = s\<lparr>sv_verifying := True\<rparr>"

subsection \<open>VerifiableBase: the shadow verifier\<close>

record VerifiableBase =
  N :: nat
  verifying :: bool
  shadow :: "cell list"
  stamp :: "32 word list"
  shadow_initv :: cell
  shadow_epoch :: "32 word"

text \<open>
  \<open>enable_verification\<close>: each of the two \<open>assign(N, 0)\<close> calls requests \<open>N\<close>
  elements, as many as the constructor of the array has obtained for \<open>A\<close>; requests
  being granted by size, they are granted, and the function has no failing branch.
\<close>

definition enable_verification :: "'a VerifiableBase_scheme \<Rightarrow> 'a VerifiableBase_scheme" where
  "enable_verification s =
     s\<lparr>verifying := True, shadow := replicate (N s) 0, stamp := replicate (N s) 0,
       shadow_initv := 0, shadow_epoch := 1\<rparr>"

definition shadow_on_init :: "'a VerifiableBase_scheme \<Rightarrow> cell \<Rightarrow> 'a VerifiableBase_scheme" where
  "shadow_on_init s v =
     (if \<not> verifying s then s
      else let s1 = s\<lparr>shadow_initv := v, shadow_epoch := shadow_epoch s + 1\<rparr> in
        if shadow_epoch s1 = 0
        then s1\<lparr>stamp := replicate (length (stamp s1)) 0, shadow_epoch := 1\<rparr>
        else s1)"

definition shadow_on_write ::
  "'a VerifiableBase_scheme \<Rightarrow> nat \<Rightarrow> cell \<Rightarrow> 'a VerifiableBase_scheme option" where
  "shadow_on_write s i v =
     (if \<not> verifying s then Some s
      else do {
        sh \<leftarrow> vec_set (shadow s) i v;
        st \<leftarrow> vec_set (stamp s) i (shadow_epoch s);
        Some (s\<lparr>shadow := sh, stamp := st\<rparr>)
      })"

text \<open>The expected value of line 100: \<open>(stamp[i]==shadow_epoch) ? shadow[i] : shadow_initv\<close>.\<close>

definition expect :: "'a VerifiableBase_scheme \<Rightarrow> nat \<Rightarrow> cell option" where
  "expect s i = do {
     st \<leftarrow> vec_get (stamp s) i;
     if st = shadow_epoch s then vec_get (shadow s) i else Some (shadow_initv s)
   }"

text \<open>The loop of \<open>shadow_check_against\<close> over the indices still to be compared.\<close>

fun check_loop :: "'a VerifiableBase_scheme \<Rightarrow> (nat \<Rightarrow> cell option) \<Rightarrow> nat list \<Rightarrow> bool option" where
  "check_loop s read_actual [] = Some True"
| "check_loop s read_actual (i # rest) = do {
     e \<leftarrow> expect s i;
     got \<leftarrow> read_actual i;
     if e \<noteq> got then Some False else check_loop s read_actual rest
   }"

definition shadow_check_against ::
  "'a VerifiableBase_scheme \<Rightarrow> (nat \<Rightarrow> cell option) \<Rightarrow> bool option" where
  "shadow_check_against s read_actual =
     (if \<not> verifying s then Some True else check_loop s read_actual [0..<N s])"

text \<open>
  The operations the two arrays mirror into the shadow: \<open>init\<close> calls \<open>shadow_on_init\<close>,
  a \<open>write\<close> that passed its bounds check (\<open>i < N\<close>) calls \<open>shadow_on_write\<close>.
\<close>

datatype shadow_op = SInit cell | SWrite nat cell

fun mirror :: "'a VerifiableBase_scheme \<Rightarrow> shadow_op \<Rightarrow> 'a VerifiableBase_scheme option" where
  "mirror s (SInit v) = Some (shadow_on_init s v)"
| "mirror s (SWrite i v) = shadow_on_write s i v"

fun mirror_all :: "'a VerifiableBase_scheme \<Rightarrow> shadow_op list \<Rightarrow> 'a VerifiableBase_scheme option" where
  "mirror_all s [] = Some s"
| "mirror_all s (x # xs) = do { s1 \<leftarrow> mirror s x; mirror_all s1 xs }"

text \<open>
  What the spec says the expected value is: the last value written to \<open>i\<close> since the most
  recent init, or the value of the most recent init; \<open>d\<close> is the value before the first
  mirrored operation.
\<close>

fun last_value :: "cell \<Rightarrow> shadow_op list \<Rightarrow> nat \<Rightarrow> cell" where
  "last_value d [] i = d"
| "last_value d (SInit v # xs) i = last_value v xs i"
| "last_value d (SWrite j v # xs) i = (if i = j then last_value v xs i else last_value d xs i)"

subsection \<open>InPlaceArraySec3 (block = 2)\<close>

record InPlaceArraySec3 = VerifiableBase +
  N_blocks :: nat
  A :: "cell list"
  b :: nat
  initv :: cell
  ctr :: Counters

text \<open>\<open>A[i]\<close> read and written through the state.\<close>

definition getA :: "'a InPlaceArraySec3_scheme \<Rightarrow> nat \<Rightarrow> cell option" where
  "getA s i = vec_get (A s) i"

definition setA :: "'a InPlaceArraySec3_scheme \<Rightarrow> nat \<Rightarrow> cell \<Rightarrow> 'a InPlaceArraySec3_scheme option" where
  "setA s i v = do { xs \<leftarrow> vec_set (A s) i v; Some (s\<lparr>A := xs\<rparr>) }"

text \<open>\<open>std::swap(A[i], A[j])\<close>.\<close>

definition swapA :: "'a InPlaceArraySec3_scheme \<Rightarrow> nat \<Rightarrow> nat \<Rightarrow> 'a InPlaceArraySec3_scheme option" where
  "swapA s i j = do {
     x \<leftarrow> getA s i;
     y \<leftarrow> getA s j;
     s1 \<leftarrow> setA s i y;
     setA s1 j x
   }"

definition inc_conversions :: "'a InPlaceArraySec3_scheme \<Rightarrow> 'a InPlaceArraySec3_scheme" where
  "inc_conversions s = s\<lparr>ctr := (ctr s)\<lparr>conversions := conversions (ctr s) + 1\<rparr>\<rparr>"

definition inc_relocations :: "'a InPlaceArraySec3_scheme \<Rightarrow> 'a InPlaceArraySec3_scheme" where
  "inc_relocations s = s\<lparr>ctr := (ctr s)\<lparr>relocations := relocations (ctr s) + 1\<rparr>\<rparr>"

text \<open>
  The constructor: the member initialisers \<open>VerifiableBase(n), N_blocks(n/2), A(n,0)\<close> run
  first, so the vector is created before the body checks the size.
\<close>

definition InPlaceArraySec3_new :: "platform \<Rightarrow> nat \<Rightarrow> error + InPlaceArraySec3" where
  "InPlaceArraySec3_new pf n =
     (case vector_new pf n of
        Inl e \<Rightarrow> Inl e
      | Inr a \<Rightarrow>
          if n = 0 then Inl InvalidSize
          else if n mod 2 \<noteq> 0 then Inl InvalidSize
          else Inr \<lparr>N = n, verifying = False, shadow = [], stamp = [], shadow_initv = 0,
                    shadow_epoch = 0, N_blocks = n div 2, A = a, b = 0, initv = 0,
                    ctr = Counters0\<rparr>)"

definition block_of3 :: "nat \<Rightarrow> nat" where
  "block_of3 i = drop_bit 1 i"

definition first_of3 :: "nat \<Rightarrow> nat" where
  "first_of3 blk = push_bit 1 blk"

text \<open>\<open>chainedTo_block\<close> returns the partner block, or \<open>-1\<close>.\<close>

definition chainedTo_block3 :: "InPlaceArraySec3 \<Rightarrow> nat \<Rightarrow> int option" where
  "chainedTo_block3 s bi = do {
     k0 \<leftarrow> getA s (first_of3 bi);
     if k0 AND 1 \<noteq> 0 then Some (- 1)
     else if k0 < 0 \<or> nat k0 \<ge> N s then Some (- 1)
     else let k = drop_bit 1 (nat k0);
              cross = ((bi < b s \<and> k \<ge> b s) \<or> (k < b s \<and> bi \<ge> b s)) in
       if \<not> cross then Some (- 1)
       else do {
         x \<leftarrow> getA s (nat k0);
         if x \<noteq> int (first_of3 bi) then Some (- 1) else Some (int k)
       }
   }"

definition makeChain3 :: "InPlaceArraySec3 \<Rightarrow> nat \<Rightarrow> nat \<Rightarrow> InPlaceArraySec3 option" where
  "makeChain3 s bi bj = do {
     s1 \<leftarrow> setA s (first_of3 bi) (int (first_of3 bj));
     s2 \<leftarrow> setA s1 (first_of3 bj) (int (first_of3 bi));
     Some (inc_conversions s2)
   }"

definition breakChain3 :: "InPlaceArraySec3 \<Rightarrow> nat \<Rightarrow> InPlaceArraySec3 option" where
  "breakChain3 s bi = do {
     k \<leftarrow> chainedTo_block3 s bi;
     if k \<ge> 0 then do {
       let bj = nat k;
       s1 \<leftarrow> setA s (first_of3 bj) (int (first_of3 bj));
       Some (inc_conversions s1)
     } else Some s
   }"

definition initBlock3 :: "InPlaceArraySec3 \<Rightarrow> nat \<Rightarrow> InPlaceArraySec3 option" where
  "initBlock3 s bi = do {
     s1 \<leftarrow> setA s (first_of3 bi) (initv s);
     setA s1 (first_of3 bi + 1) (initv s1)
   }"

definition extend3 :: "InPlaceArraySec3 \<Rightarrow> (InPlaceArraySec3 \<times> nat) option" where
  "extend3 s0 = do {
     let s = b s0;
     k \<leftarrow> chainedTo_block3 s0 s;
     let s1 = s0\<lparr>b := b s0 + 1\<rparr>;
     if k < 0 then do {
       s2 \<leftarrow> initBlock3 s1 s;
       s3 \<leftarrow> breakChain3 s2 s;
       Some (s3, s)
     } else do {
       let bk = nat k;
       x \<leftarrow> getA s1 (first_of3 bk + 1);
       s2 \<leftarrow> setA s1 (first_of3 s) x;
       s3 \<leftarrow> breakChain3 s2 s;
       s4 \<leftarrow> initBlock3 s3 bk;
       s5 \<leftarrow> breakChain3 s4 bk;
       Some (inc_relocations s5, bk)
     }
   }"

definition read_impl3 :: "InPlaceArraySec3 \<Rightarrow> nat \<Rightarrow> cell option" where
  "read_impl3 s i = do {
     let bi = block_of3 i;
     k \<leftarrow> chainedTo_block3 s bi;
     if i < 2 * b s then
       (if k \<ge> 0 then Some (initv s) else getA s i)
     else
       (if k \<ge> 0 then
          (let bk = nat k in
           if i AND 1 = 0 then getA s (first_of3 bk + 1) else getA s i)
        else Some (initv s))
   }"

definition write_impl3 :: "InPlaceArraySec3 \<Rightarrow> nat \<Rightarrow> cell \<Rightarrow> InPlaceArraySec3 option" where
  "write_impl3 s i v = do {
     let bi = block_of3 i;
     k \<leftarrow> chainedTo_block3 s bi;
     if bi < b s then
       (if k < 0 then do {
          s1 \<leftarrow> setA s i v;
          breakChain3 s1 bi
        } else do {
          (s1, bj) \<leftarrow> extend3 s;
          if bj = bi then do {
            s2 \<leftarrow> setA s1 i v;
            breakChain3 s2 bi
          } else do {
            s2 \<leftarrow> swapA s1 (first_of3 bj) (first_of3 bi);
            s3 \<leftarrow> swapA s2 (first_of3 bj + 1) (first_of3 bi + 1);
            let s4 = inc_relocations s3;
            s5 \<leftarrow> makeChain3 s4 bj (nat k);
            s6 \<leftarrow> initBlock3 s5 bi;
            s7 \<leftarrow> setA s6 i v;
            breakChain3 s7 bi
          }
        })
     else
       (if k \<ge> 0 then
          (let bk = nat k in
           if i AND 1 = 0 then setA s (first_of3 bk + 1) v else setA s i v)
        else do {
          (s1, bk2) \<leftarrow> extend3 s;
          if bk2 = bi then do {
            s2 \<leftarrow> setA s1 i v;
            breakChain3 s2 bi
          } else do {
            s2 \<leftarrow> initBlock3 s1 bi;
            s3 \<leftarrow> makeChain3 s2 bk2 bi;
            if i AND 1 = 0 then setA s3 (first_of3 bk2 + 1) v else setA s3 i v
          }
        })
   }"

definition init3 :: "InPlaceArraySec3 \<Rightarrow> cell \<Rightarrow> InPlaceArraySec3" where
  "init3 s v =
     shadow_on_init (s\<lparr>ctr := (ctr s)\<lparr>inits := inits (ctr s) + 1\<rparr>, initv := v, b := 0\<rparr>) v"

definition read3 :: "InPlaceArraySec3 \<Rightarrow> nat \<Rightarrow> (InPlaceArraySec3 \<times> (error + cell)) option" where
  "read3 s i =
     (let s1 = s\<lparr>ctr := (ctr s)\<lparr>reads := reads (ctr s) + 1\<rparr>\<rparr> in
      if i \<ge> N s1 then Some (s1, Inl IndexOutOfRange)
      else do { x \<leftarrow> read_impl3 s1 i; Some (s1, Inr x) })"

definition write3 :: "InPlaceArraySec3 \<Rightarrow> nat \<Rightarrow> cell \<Rightarrow> (InPlaceArraySec3 \<times> (error + unit)) option" where
  "write3 s i v =
     (let s1 = s\<lparr>ctr := (ctr s)\<lparr>writes := writes (ctr s) + 1\<rparr>\<rparr> in
      if i \<ge> N s1 then Some (s1, Inl IndexOutOfRange)
      else do {
        s2 \<leftarrow> write_impl3 s1 i v;
        s3 \<leftarrow> (if verifying s2 then shadow_on_write s2 i v else Some s2);
        Some (s3, Inr ())
      })"

subsection \<open>InPlaceArraySec4 (block = 4)\<close>

text \<open>
  The class declares the same fields as InPlaceArraySec3 and the flag; the record extension
  shares the field names, the functions of the two classes are separate.
\<close>

record InPlaceArraySec4 = InPlaceArraySec3 +
  flag :: bool

definition InPlaceArraySec4_new :: "platform \<Rightarrow> nat \<Rightarrow> error + InPlaceArraySec4" where
  "InPlaceArraySec4_new pf n =
     (case vector_new pf n of
        Inl e \<Rightarrow> Inl e
      | Inr a \<Rightarrow>
          if n = 0 then Inl InvalidSize
          else if n mod 4 \<noteq> 0 then Inl InvalidSize
          else Inr \<lparr>N = n, verifying = False, shadow = [], stamp = [], shadow_initv = 0,
                    shadow_epoch = 0, N_blocks = n div 4, A = a, b = 0, initv = 0,
                    ctr = Counters0, flag = False\<rparr>)"

definition block_of4 :: "nat \<Rightarrow> nat" where
  "block_of4 i = drop_bit 2 i"

definition first_of4 :: "nat \<Rightarrow> nat" where
  "first_of4 blk = push_bit 2 blk"

definition sync_flag :: "InPlaceArraySec4 \<Rightarrow> InPlaceArraySec4" where
  "sync_flag s = s\<lparr>flag := (b s \<ge> N_blocks s)\<rparr>"

definition sync_meta_to_A :: "InPlaceArraySec4 \<Rightarrow> InPlaceArraySec4 option" where
  "sync_meta_to_A s0 =
     (let s = sync_flag s0 in
      if \<not> flag s then do {
        let mb = N_blocks s - 1;
        s1 \<leftarrow> setA s (first_of4 mb + 1) (initv s);
        setA s1 (first_of4 mb + 2) (int (b s1))
      } else Some s)"

definition chainedTo_block4 :: "InPlaceArraySec4 \<Rightarrow> nat \<Rightarrow> int option" where
  "chainedTo_block4 s bi = do {
     k0 \<leftarrow> getA s (first_of4 bi);
     if k0 AND 3 \<noteq> 0 then Some (- 1)
     else if k0 < 0 \<or> nat k0 \<ge> N s then Some (- 1)
     else let k = drop_bit 2 (nat k0);
              cross = ((bi < b s \<and> k \<ge> b s) \<or> (k < b s \<and> bi \<ge> b s)) in
       if \<not> cross then Some (- 1)
       else do {
         x \<leftarrow> getA s (nat k0);
         if x \<noteq> int (first_of4 bi) then Some (- 1) else Some (int k)
       }
   }"

definition makeChain4 :: "InPlaceArraySec4 \<Rightarrow> nat \<Rightarrow> nat \<Rightarrow> InPlaceArraySec4 option" where
  "makeChain4 s bi bj = do {
     s1 \<leftarrow> setA s (first_of4 bi) (int (first_of4 bj));
     s2 \<leftarrow> setA s1 (first_of4 bj) (int (first_of4 bi));
     Some (inc_conversions s2)
   }"

definition breakChain4 :: "InPlaceArraySec4 \<Rightarrow> nat \<Rightarrow> InPlaceArraySec4 option" where
  "breakChain4 s bi = do {
     k \<leftarrow> chainedTo_block4 s bi;
     if k \<ge> 0 then do {
       let bj = nat k;
       s1 \<leftarrow> setA s (first_of4 bj) (int (first_of4 bj));
       Some (inc_conversions s1)
     } else Some s
   }"

definition initBlock4 :: "InPlaceArraySec4 \<Rightarrow> nat \<Rightarrow> InPlaceArraySec4 option" where
  "initBlock4 s bi = do {
     s1 \<leftarrow> setA s (first_of4 bi) (initv s);
     s2 \<leftarrow> setA s1 (first_of4 bi + 1) (initv s1);
     s3 \<leftarrow> setA s2 (first_of4 bi + 2) (initv s2);
     setA s3 (first_of4 bi + 3) (initv s3)
   }"

definition extend4 :: "InPlaceArraySec4 \<Rightarrow> (InPlaceArraySec4 \<times> nat) option" where
  "extend4 s0 = do {
     let s = b s0;
     k \<leftarrow> chainedTo_block4 s0 s;
     let s1 = s0\<lparr>b := b s0 + 1\<rparr>;
     if k < 0 then do {
       s2 \<leftarrow> initBlock4 s1 s;
       s3 \<leftarrow> breakChain4 s2 s;
       s4 \<leftarrow> sync_meta_to_A s3;
       Some (s4, s)
     } else do {
       let bk = nat k;
       x0 \<leftarrow> getA s1 (first_of4 bk + 1);
       s2 \<leftarrow> setA s1 (first_of4 s) x0;
       x1 \<leftarrow> getA s2 (first_of4 bk + 2);
       s3 \<leftarrow> setA s2 (first_of4 s + 1) x1;
       x2 \<leftarrow> getA s3 (first_of4 bk + 3);
       s4 \<leftarrow> setA s3 (first_of4 s + 2) x2;
       s5 \<leftarrow> breakChain4 s4 s;
       s6 \<leftarrow> initBlock4 s5 bk;
       s7 \<leftarrow> breakChain4 s6 bk;
       s8 \<leftarrow> sync_meta_to_A (inc_relocations s7);
       Some (s8, bk)
     }
   }"

text \<open>
  The two \<open>switch (i & 3U)\<close> statements: offsets 0, 1, 2 of a chained block of the
  unwritten area live at offsets 1, 2, 3 of the partner, offset 3 lives in place.
\<close>

definition read_through4 :: "InPlaceArraySec4 \<Rightarrow> nat \<Rightarrow> nat \<Rightarrow> cell option" where
  "read_through4 s bk i =
     (if i AND 3 = 0 then getA s (first_of4 bk + 1)
      else if i AND 3 = 1 then getA s (first_of4 bk + 2)
      else if i AND 3 = 2 then getA s (first_of4 bk + 3)
      else if i AND 3 = 3 then getA s i
      else Some 0)"

definition write_through4 :: "InPlaceArraySec4 \<Rightarrow> nat \<Rightarrow> nat \<Rightarrow> cell \<Rightarrow> InPlaceArraySec4 option" where
  "write_through4 s bk i v =
     (if i AND 3 = 0 then setA s (first_of4 bk + 1) v
      else if i AND 3 = 1 then setA s (first_of4 bk + 2) v
      else if i AND 3 = 2 then setA s (first_of4 bk + 3) v
      else if i AND 3 = 3 then setA s i v
      else Some s)"

definition read_impl4 :: "InPlaceArraySec4 \<Rightarrow> nat \<Rightarrow> cell option" where
  "read_impl4 s i =
     (if flag s then getA s i
      else do {
        let bi = block_of4 i;
        k \<leftarrow> chainedTo_block4 s bi;
        if i < 4 * b s then
          (if k \<ge> 0 then Some (initv s) else getA s i)
        else
          (if k \<ge> 0 then read_through4 s (nat k) i else Some (initv s))
      })"

text \<open>The loop \<open>for (t = 0; t < 4; ++t) std::swap(A[first_of(bj)+t], A[first_of(bi)+t])\<close>.\<close>

definition swap_blocks4 :: "InPlaceArraySec4 \<Rightarrow> nat \<Rightarrow> nat \<Rightarrow> InPlaceArraySec4 option" where
  "swap_blocks4 s bj bi = do {
     s1 \<leftarrow> swapA s (first_of4 bj) (first_of4 bi);
     s2 \<leftarrow> swapA s1 (first_of4 bj + 1) (first_of4 bi + 1);
     s3 \<leftarrow> swapA s2 (first_of4 bj + 2) (first_of4 bi + 2);
     swapA s3 (first_of4 bj + 3) (first_of4 bi + 3)
   }"

definition write_impl4 :: "InPlaceArraySec4 \<Rightarrow> nat \<Rightarrow> cell \<Rightarrow> InPlaceArraySec4 option" where
  "write_impl4 s i v =
     (if flag s then setA s i v
      else do {
        let bi = block_of4 i;
        k \<leftarrow> chainedTo_block4 s bi;
        if bi < b s then
          (if k < 0 then do {
             s1 \<leftarrow> setA s i v;
             breakChain4 s1 bi
           } else do {
             (s1, bj) \<leftarrow> extend4 s;
             if bj = bi then do {
               s2 \<leftarrow> setA s1 i v;
               breakChain4 s2 bi
             } else do {
               s2 \<leftarrow> swap_blocks4 s1 bj bi;
               let s3 = inc_relocations s2;
               s4 \<leftarrow> makeChain4 s3 bj (nat k);
               s5 \<leftarrow> initBlock4 s4 bi;
               s6 \<leftarrow> setA s5 i v;
               breakChain4 s6 bi
             }
           })
        else
          (if k \<ge> 0 then write_through4 s (nat k) i v
           else do {
             (s1, bk2) \<leftarrow> extend4 s;
             if bk2 = bi then do {
               s2 \<leftarrow> setA s1 i v;
               breakChain4 s2 bi
             } else do {
               s2 \<leftarrow> initBlock4 s1 bi;
               s3 \<leftarrow> makeChain4 s2 bk2 bi;
               write_through4 s3 bk2 i v
             }
           })
      })"

definition init4 :: "InPlaceArraySec4 \<Rightarrow> cell \<Rightarrow> InPlaceArraySec4 option" where
  "init4 s v = do {
     let s1 = s\<lparr>ctr := (ctr s)\<lparr>inits := inits (ctr s) + 1\<rparr>, initv := v, b := 0\<rparr>;
     let s2 = s1\<lparr>flag := (N_blocks s1 = 0)\<rparr>;
     s3 \<leftarrow> sync_meta_to_A s2;
     Some (shadow_on_init s3 v)
   }"

definition read4 :: "InPlaceArraySec4 \<Rightarrow> nat \<Rightarrow> (InPlaceArraySec4 \<times> (error + cell)) option" where
  "read4 s i =
     (let s1 = s\<lparr>ctr := (ctr s)\<lparr>reads := reads (ctr s) + 1\<rparr>\<rparr> in
      if i \<ge> N s1 then Some (s1, Inl IndexOutOfRange)
      else do { x \<leftarrow> read_impl4 s1 i; Some (s1, Inr x) })"

definition write4 :: "InPlaceArraySec4 \<Rightarrow> nat \<Rightarrow> cell \<Rightarrow> (InPlaceArraySec4 \<times> (error + unit)) option" where
  "write4 s i v =
     (let s1 = s\<lparr>ctr := (ctr s)\<lparr>writes := writes (ctr s) + 1\<rparr>\<rparr> in
      if i \<ge> N s1 then Some (s1, Inl IndexOutOfRange)
      else do {
        s2 \<leftarrow> write_impl4 s1 i v;
        s3 \<leftarrow> (if verifying s2 then shadow_on_write s2 i v else Some s2);
        Some (s3, Inr ())
      })"

subsection \<open>Sequences of operations\<close>

datatype op = Init cell | Read nat | Write nat cell | Enable

text \<open>
  One call of the public interface (init, read, write or enable_verification), keeping the
  state it leaves behind. A call that throws leaves a state too (the caller catches the
  exception); only an access outside a vector leaves none.
\<close>

fun step3 :: "InPlaceArraySec3 \<Rightarrow> op \<Rightarrow> InPlaceArraySec3 option" where
  "step3 s (Init v) = Some (init3 s v)"
| "step3 s (Read i) = map_option fst (read3 s i)"
| "step3 s (Write i v) = map_option fst (write3 s i v)"
| "step3 s Enable = Some (enable_verification s)"

fun run3 :: "InPlaceArraySec3 \<Rightarrow> op list \<Rightarrow> InPlaceArraySec3 option" where
  "run3 s [] = Some s"
| "run3 s (x # xs) = do { s1 \<leftarrow> step3 s x; run3 s1 xs }"

fun step4 :: "InPlaceArraySec4 \<Rightarrow> op \<Rightarrow> InPlaceArraySec4 option" where
  "step4 s (Init v) = init4 s v"
| "step4 s (Read i) = map_option fst (read4 s i)"
| "step4 s (Write i v) = map_option fst (write4 s i v)"
| "step4 s Enable = Some (enable_verification s)"

fun run4 :: "InPlaceArraySec4 \<Rightarrow> op list \<Rightarrow> InPlaceArraySec4 option" where
  "run4 s [] = Some s"
| "run4 s (x # xs) = do { s1 \<leftarrow> step4 s x; run4 s1 xs }"

text \<open>The same calls on the baseline, the plain array of \<open>N\<close> cells.\<close>

fun step_sv :: "StdVectorWrapper \<Rightarrow> op \<Rightarrow> StdVectorWrapper option" where
  "step_sv s (Init v) = Some (sv_init s v)"
| "step_sv s (Read i) = map_option fst (sv_read s i)"
| "step_sv s (Write i v) = map_option fst (sv_write s i v)"
| "step_sv s Enable = Some (sv_enable_verification s)"

fun run_sv :: "StdVectorWrapper \<Rightarrow> op list \<Rightarrow> StdVectorWrapper option" where
  "run_sv s [] = Some s"
| "run_sv s (x # xs) = do { s1 \<leftarrow> step_sv s x; run_sv s1 xs }"

section \<open>Auxiliary definitions of the proofs\<close>

subsection \<open>Invariant of the shadow verifier\<close>

definition shadow_inv :: "'a VerifiableBase_scheme \<Rightarrow> bool" where
  "shadow_inv s \<longleftrightarrow> verifying s \<and> length (shadow s) = N s \<and> length (stamp s) = N s \<and>
     shadow_epoch s \<noteq> 0 \<and> list_all (\<lambda>x. x \<le> shadow_epoch s) (stamp s)"

fun in_range :: "nat \<Rightarrow> shadow_op \<Rightarrow> bool" where
  "in_range n (SInit v) = True"
| "in_range n (SWrite i v) = (i < n)"

subsection \<open>Example platform and states\<close>

text \<open>
  A 64-bit platform: \<open>max_size()\<close> of a vector of 8-byte cells is \<open>2^60 - 1\<close>, and the
  allocator grants up to \<open>2^32\<close> cells (32 GiB).
\<close>

definition ex_platform :: platform where
  "ex_platform = \<lparr>vec_max_size = 1152921504606846975, alloc_limit = 4294967296\<rparr>"

text \<open>A verifying two-cell sec3 array whose epoch counter is at its maximum.\<close>

definition ex_wrap :: InPlaceArraySec3 where
  "ex_wrap = \<lparr>N = 2, verifying = True, shadow = [5, 0], stamp = [4294967295, 3],
      shadow_initv = 0, shadow_epoch = 4294967295, N_blocks = 1, A = [0, 0], b = 0, initv = 0,
      ctr = Counters0\<rparr>"

subsection \<open>The arrays seen as blocks\<close>

text \<open>
  The proofs about the two arrays are done once, for a block size \<open>B\<close>, on the storage
  seen as a function from block number and offset to cell. \<open>view\<close> gives that function
  for a vector; the \<open>g_\<close> functions are the operations of the two classes on it
  (\<open>st\<close> tells whether the stash of the last block is written, as in InPlaceArraySec4).
  The refinement lemmas below show that the functions of the model compute exactly these.
\<close>

type_synonym blocks = "nat \<Rightarrow> nat \<Rightarrow> cell"

definition view :: "nat \<Rightarrow> cell list \<Rightarrow> blocks" where
  "view B xs x t = (if t < B then xs ! (B * x + t) else 0)"

definition enc :: "nat \<Rightarrow> nat \<Rightarrow> cell" where
  "enc B x = int (B * x)"

definition dec :: "nat \<Rightarrow> nat \<Rightarrow> cell \<Rightarrow> nat option" where
  "dec B nb v = (if v mod int B = 0 \<and> 0 \<le> v \<and> nat v < B * nb then Some (nat v div B) else None)"

definition cross :: "nat \<Rightarrow> nat \<Rightarrow> nat \<Rightarrow> bool" where
  "cross bd x k \<longleftrightarrow> (x < bd \<and> bd \<le> k) \<or> (k < bd \<and> bd \<le> x)"

definition g_chained :: "nat \<Rightarrow> nat \<Rightarrow> blocks \<Rightarrow> nat \<Rightarrow> nat \<Rightarrow> nat option" where
  "g_chained B nb c bd x =
     (case dec B nb (c x 0) of
        None \<Rightarrow> None
      | Some k \<Rightarrow> if cross bd x k \<and> c k 0 = enc B x then Some k else None)"

definition put :: "blocks \<Rightarrow> nat \<Rightarrow> nat \<Rightarrow> cell \<Rightarrow> blocks" where
  "put c x t v = c(x := (c x)(t := v))"

definition g_break :: "nat \<Rightarrow> nat \<Rightarrow> blocks \<Rightarrow> nat \<Rightarrow> nat \<Rightarrow> blocks" where
  "g_break B nb c bd x =
     (case g_chained B nb c bd x of None \<Rightarrow> c | Some k \<Rightarrow> put c k 0 (enc B k))"

definition g_init :: "nat \<Rightarrow> blocks \<Rightarrow> cell \<Rightarrow> nat \<Rightarrow> blocks" where
  "g_init B c iv x = c(x := (\<lambda>t. if t < B then iv else c x t))"

definition g_make :: "nat \<Rightarrow> blocks \<Rightarrow> nat \<Rightarrow> nat \<Rightarrow> blocks" where
  "g_make B c x y = put (put c x 0 (enc B y)) y 0 (enc B x)"

definition g_sync :: "bool \<Rightarrow> nat \<Rightarrow> blocks \<Rightarrow> nat \<Rightarrow> cell \<Rightarrow> blocks" where
  "g_sync st nb c bd iv =
     (if st \<and> bd < nb then put (put c (nb - 1) 1 iv) (nb - 1) 2 (int bd) else c)"

definition g_copy :: "nat \<Rightarrow> blocks \<Rightarrow> nat \<Rightarrow> nat \<Rightarrow> blocks" where
  "g_copy B c s k = c(s := (\<lambda>t. if t < B - 1 then c k (t + 1) else c s t))"

definition g_extend :: "nat \<Rightarrow> nat \<Rightarrow> bool \<Rightarrow> blocks \<Rightarrow> nat \<Rightarrow> cell \<Rightarrow> blocks \<times> nat" where
  "g_extend B nb st c bd iv =
     (case g_chained B nb c bd bd of
        None \<Rightarrow> (g_sync st nb (g_break B nb (g_init B c iv bd) (Suc bd) bd) (Suc bd) iv, bd)
      | Some k \<Rightarrow>
          (g_sync st nb
             (g_break B nb (g_init B (g_break B nb (g_copy B c bd k) (Suc bd) bd) iv k) (Suc bd) k)
             (Suc bd) iv, k))"

definition g_read :: "nat \<Rightarrow> nat \<Rightarrow> blocks \<Rightarrow> nat \<Rightarrow> cell \<Rightarrow> nat \<Rightarrow> nat \<Rightarrow> cell" where
  "g_read B nb c bd iv x t =
     (case g_chained B nb c bd x of
        None \<Rightarrow> if x < bd then c x t else iv
      | Some k \<Rightarrow> if x < bd then iv else if t < B - 1 then c k (t + 1) else c x t)"

definition g_through :: "nat \<Rightarrow> blocks \<Rightarrow> nat \<Rightarrow> nat \<Rightarrow> nat \<Rightarrow> cell \<Rightarrow> blocks" where
  "g_through B c k x t v = (if t < B - 1 then put c k (t + 1) v else put c x t v)"

definition g_swap :: "blocks \<Rightarrow> nat \<Rightarrow> nat \<Rightarrow> blocks" where
  "g_swap c x y = c(x := c y, y := c x)"

definition g_write ::
  "nat \<Rightarrow> nat \<Rightarrow> bool \<Rightarrow> blocks \<Rightarrow> nat \<Rightarrow> cell \<Rightarrow> nat \<Rightarrow> nat \<Rightarrow> cell \<Rightarrow> blocks \<times> nat" where
  "g_write B nb st c bd iv x t v =
     (case g_chained B nb c bd x of
        None \<Rightarrow>
          if x < bd then (g_break B nb (put c x t v) bd x, bd)
          else (case g_extend B nb st c bd iv of (c1, r) \<Rightarrow>
            if r = x then (g_break B nb (put c1 x t v) (Suc bd) x, Suc bd)
            else (g_through B (g_make B (g_init B c1 iv x) r x) r x t v, Suc bd))
      | Some k \<Rightarrow>
          if x < bd then (case g_extend B nb st c bd iv of (c1, r) \<Rightarrow>
            if r = x then (g_break B nb (put c1 x t v) (Suc bd) x, Suc bd)
            else (g_break B nb (put (g_init B (g_make B (g_swap c1 r x) r k) iv x) x t v) (Suc bd) x,
                  Suc bd))
          else (g_through B c k x t v, bd))"

definition extend_post ::
  "nat \<Rightarrow> nat \<Rightarrow> blocks \<Rightarrow> nat \<Rightarrow> cell \<Rightarrow> blocks \<Rightarrow> nat \<Rightarrow> bool" where
  "extend_post B nb c bd iv c' r \<longleftrightarrow>
     r \<le> bd \<and> (\<forall>u < B. c' r u = iv) \<and> g_chained B nb c' (Suc bd) r = None \<and>
     (r = bd \<longleftrightarrow> g_chained B nb c bd bd = None) \<and>
     (r \<noteq> bd \<longrightarrow> g_chained B nb c bd bd = Some r) \<and>
     (\<forall>y < nb. \<forall>u < B. g_read B nb c' (Suc bd) iv y u = g_read B nb c bd iv y u) \<and>
     (\<forall>y < nb. y \<noteq> bd \<longrightarrow> y \<noteq> r \<longrightarrow> g_chained B nb c' (Suc bd) y = g_chained B nb c bd y)"

subsection \<open>Relating states of the arrays\<close>

definition same_frame :: "'a InPlaceArraySec3_scheme \<Rightarrow> 'a InPlaceArraySec3_scheme \<Rightarrow> bool" where
  "same_frame s s' \<longleftrightarrow>
     N s' = N s \<and> verifying s' = verifying s \<and> shadow s' = shadow s \<and> stamp s' = stamp s \<and>
     shadow_initv s' = shadow_initv s \<and> shadow_epoch s' = shadow_epoch s \<and>
     N_blocks s' = N_blocks s \<and> initv s' = initv s \<and> length (A s') = length (A s)"

definition ref_to ::
  "nat \<Rightarrow> 'a InPlaceArraySec3_scheme \<Rightarrow> 'a InPlaceArraySec3_scheme \<Rightarrow> blocks \<Rightarrow> nat \<Rightarrow> bool" where
  "ref_to B s s' c' bd' \<longleftrightarrow> same_frame s s' \<and> b s' = bd' \<and> view B (A s') = c'"

definition shape :: "nat \<Rightarrow> 'a InPlaceArraySec3_scheme \<Rightarrow> bool" where
  "shape B s \<longleftrightarrow> N s = B * N_blocks s \<and> length (A s) = N s"

definition partner_code :: "nat option \<Rightarrow> int" where
  "partner_code r = (case r of None \<Rightarrow> - 1 | Some k \<Rightarrow> int k)"

subsection \<open>Invariants and logical contents of the two arrays\<close>

text \<open>
  \<open>wf3\<close> and \<open>wf4\<close> hold after construction and are kept by every operation;
  \<open>logical3 s j\<close> and \<open>logical4 s j\<close> are what \<open>read(j)\<close> returns in state \<open>s\<close>.
\<close>

definition wf3 :: "InPlaceArraySec3 \<Rightarrow> bool" where
  "wf3 s \<longleftrightarrow> shape 2 s \<and> b s \<le> N_blocks s \<and>
     (verifying s \<longrightarrow> length (shadow s) = N s \<and> length (stamp s) = N s)"

definition wf4 :: "InPlaceArraySec4 \<Rightarrow> bool" where
  "wf4 s \<longleftrightarrow> shape 4 s \<and> b s \<le> N_blocks s \<and> flag s = (N_blocks s \<le> b s) \<and>
     (verifying s \<longrightarrow> length (shadow s) = N s \<and> length (stamp s) = N s)"

definition logical3 :: "InPlaceArraySec3 \<Rightarrow> nat \<Rightarrow> cell" where
  "logical3 s j = g_read 2 (N_blocks s) (view 2 (A s)) (b s) (initv s) (j div 2) (j mod 2)"

definition logical4 :: "InPlaceArraySec4 \<Rightarrow> nat \<Rightarrow> cell" where
  "logical4 s j = g_read 4 (N_blocks s) (view 4 (A s)) (b s) (initv s) (j div 4) (j mod 4)"

text \<open>
  \<open>agree3 s d\<close> and \<open>agree4 s d\<close>: the array \<open>s\<close> is well formed and its
  logical contents are the cells of the plain array \<open>d\<close> (a std_vector of the same size).
\<close>

definition agree3 :: "InPlaceArraySec3 \<Rightarrow> StdVectorWrapper \<Rightarrow> bool" where
  "agree3 s d \<longleftrightarrow> wf3 s \<and> sv_N d = N s \<and> length (data d) = N s \<and>
     (\<forall>j < N s. logical3 s j = data d ! j)"

definition agree4 :: "InPlaceArraySec4 \<Rightarrow> StdVectorWrapper \<Rightarrow> bool" where
  "agree4 s d \<longleftrightarrow> wf4 s \<and> sv_N d = N s \<and> length (data d) = N s \<and>
     (\<forall>j < N s. logical4 s j = data d ! j)"

text \<open>The sec3 array of size 4 after \<open>init(0); write(2, 5)\<close>: block 1 is chained to block 0.\<close>

definition ex_chained3 :: InPlaceArraySec3 where
  "ex_chained3 = \<lparr>N = 4, verifying = False, shadow = [], stamp = [], shadow_initv = 0,
      shadow_epoch = 0, N_blocks = 2, A = [2, 5, 0, 0], b = 1, initv = 0,
      ctr = \<lparr>reads = 0, writes = 1, inits = 1, relocations = 0, conversions = 1\<rparr>\<rparr>"

text \<open>The same array after a further \<open>write(3, 6)\<close>, which goes to the in-place cell.\<close>

definition ex_written3 :: InPlaceArraySec3 where
  "ex_written3 = \<lparr>N = 4, verifying = False, shadow = [], stamp = [], shadow_initv = 0,
      shadow_epoch = 0, N_blocks = 2, A = [2, 5, 0, 6], b = 1, initv = 0,
      ctr = \<lparr>reads = 0, writes = 2, inits = 1, relocations = 0, conversions = 1\<rparr>\<rparr>"

text \<open>The sec4 array of size 8 after \<open>init(7); write(7, 1)\<close>: block 1 is chained to block 0.\<close>

definition ex_chained4 :: InPlaceArraySec4 where
  "ex_chained4 = \<lparr>N = 8, verifying = False, shadow = [], stamp = [], shadow_initv = 0,
      shadow_epoch = 0, N_blocks = 2, A = [4, 7, 7, 7, 0, 7, 7, 1], b = 1, initv = 7,
      ctr = \<lparr>reads = 0, writes = 1, inits = 1, relocations = 0, conversions = 1\<rparr>,
      flag = False\<rparr>"

section \<open>Construction and failure semantics\<close>

lemma new3_at_4:
  "projr (InPlaceArraySec3_new ex_platform 4) =
     \<lparr>N = 4, verifying = False, shadow = [], stamp = [], shadow_initv = 0, shadow_epoch = 0,
      N_blocks = 2, A = replicate 4 0, b = 0, initv = 0, ctr = Counters0\<rparr>"
  by (simp add: InPlaceArraySec3_new_def vector_new_def ex_platform_def)

lemma new4_at_8:
  "projr (InPlaceArraySec4_new ex_platform 8) =
     \<lparr>N = 8, verifying = False, shadow = [], stamp = [], shadow_initv = 0, shadow_epoch = 0,
      N_blocks = 2, A = replicate 8 0, b = 0, initv = 0, ctr = Counters0,
      flag = False\<rparr>"
  by (simp add: InPlaceArraySec4_new_def vector_new_def ex_platform_def)

text \<open>
  Claim C8, as stated: construction of every variant with size 0 or with a size that is not a
  multiple of the block size fails with InvalidSize, and construction with a valid size
  succeeds. On the example platform: the baseline, whose constructor checks nothing, accepts
  size 0; for sec3 the odd size \<open>2^60 + 1\<close> fails with LengthError, not InvalidSize,
  because the vector is created before the size is checked; for sec4 the sizes \<open>2^60\<close>
  and \<open>2^40\<close>, both multiples of 4, fail with LengthError and OutOfMemory.
\<close>

theorem C8_construction_as_stated_fails:
  "StdVectorWrapper_new ex_platform 0 =
     Inr \<lparr>sv_N = 0, data = [], sv_ctr = Counters0, sv_verifying = False, initv_shadow = 0,
          epoch = 0\<rparr> \<and>
   InPlaceArraySec3_new ex_platform 1152921504606846977 = Inl LengthError \<and>
   InPlaceArraySec4_new ex_platform 1152921504606846976 = Inl LengthError \<and>
   InPlaceArraySec4_new ex_platform 1099511627776 = Inl OutOfMemory"
  by (simp add: StdVectorWrapper_new_def InPlaceArraySec3_new_def InPlaceArraySec4_new_def
      vector_new_def ex_platform_def)

text \<open>
  Claim C8, amended: on every platform and for every size \<open>n\<close>. If a vector of
  \<open>n\<close> cells can be created (\<open>n\<close> is at most \<open>max_size()\<close> and the allocator
  grants the request), then for sec3 and sec4 construction with size 0 or with a size that is
  not a multiple of the block size (2, 4) fails with InvalidSize and construction with a valid
  size succeeds with zero-initialised storage, and construction of std_vector succeeds for
  every such size, 0 included, with zero-initialised storage. If the vector cannot be
  created, construction of each of the three variants fails with LengthError (\<open>n\<close>
  above \<open>max_size()\<close>) or else with OutOfMemory, whatever the divisibility of \<open>n\<close>.
\<close>

theorem C8_construction:
  "(n \<le> vec_max_size pf \<and> n \<le> alloc_limit pf \<longrightarrow>
      (n = 0 \<or> n mod 2 \<noteq> 0 \<longrightarrow> InPlaceArraySec3_new pf n = Inl InvalidSize) \<and>
      (n = 0 \<or> n mod 4 \<noteq> 0 \<longrightarrow> InPlaceArraySec4_new pf n = Inl InvalidSize) \<and>
      (n \<noteq> 0 \<and> n mod 2 = 0 \<longrightarrow>
         (\<exists>s. InPlaceArraySec3_new pf n = Inr s \<and> N s = n \<and> A s = replicate n 0)) \<and>
      (n \<noteq> 0 \<and> n mod 4 = 0 \<longrightarrow>
         (\<exists>s. InPlaceArraySec4_new pf n = Inr s \<and> N s = n \<and> A s = replicate n 0)) \<and>
      (\<exists>s. StdVectorWrapper_new pf n = Inr s \<and> sv_N s = n \<and> data s = replicate n 0)) \<and>
   (vec_max_size pf < n \<longrightarrow>
      InPlaceArraySec3_new pf n = Inl LengthError \<and>
      InPlaceArraySec4_new pf n = Inl LengthError \<and>
      StdVectorWrapper_new pf n = Inl LengthError) \<and>
   (n \<le> vec_max_size pf \<and> alloc_limit pf < n \<longrightarrow>
      InPlaceArraySec3_new pf n = Inl OutOfMemory \<and>
      InPlaceArraySec4_new pf n = Inl OutOfMemory \<and>
      StdVectorWrapper_new pf n = Inl OutOfMemory)"
  by (simp add: StdVectorWrapper_new_def InPlaceArraySec3_new_def InPlaceArraySec4_new_def
      vector_new_def)

theorem C8_construction_witness:
  "(0::nat) \<le> vec_max_size ex_platform \<and> (8::nat) \<le> alloc_limit ex_platform \<and>
   InPlaceArraySec3_new ex_platform 0 = Inl InvalidSize \<and>
   InPlaceArraySec4_new ex_platform 0 = Inl InvalidSize \<and>
   InPlaceArraySec3_new ex_platform 7 = Inl InvalidSize \<and>
   InPlaceArraySec4_new ex_platform 6 = Inl InvalidSize \<and>
   (\<exists>s. InPlaceArraySec3_new ex_platform 6 = Inr s \<and> N s = 6 \<and> A s = replicate 6 0) \<and>
   (\<exists>s. InPlaceArraySec4_new ex_platform 8 = Inr s \<and> N s = 8 \<and> A s = replicate 8 0) \<and>
   (\<exists>s. StdVectorWrapper_new ex_platform 0 = Inr s \<and> sv_N s = 0 \<and> data s = replicate 0 0) \<and>
   vec_max_size ex_platform < 1152921504606846977 \<and>
   InPlaceArraySec3_new ex_platform 1152921504606846977 = Inl LengthError \<and>
   StdVectorWrapper_new ex_platform 1152921504606846977 = Inl LengthError \<and>
   alloc_limit ex_platform < 1099511627776 \<and>
   InPlaceArraySec4_new ex_platform 1099511627776 = Inl OutOfMemory \<and>
   StdVectorWrapper_new ex_platform 1099511627776 = Inl OutOfMemory"
  using C8_construction [of 0 ex_platform] C8_construction [of 7 ex_platform]
    C8_construction [of 6 ex_platform] C8_construction [of 8 ex_platform]
    C8_construction [of 1152921504606846977 ex_platform]
    C8_construction [of 1099511627776 ex_platform]
  by (simp add: ex_platform_def)

text \<open>
  Claim C7: for each of the three variants and every index \<open>i \<ge> N\<close>, read and write fail
  with IndexOutOfRange, and the state after the failing call is the state before it with the
  reads (writes) counter incremented once.
\<close>

theorem C7_out_of_range:
  "(i \<ge> sv_N sv \<longrightarrow>
     sv_read sv i =
       Some (sv\<lparr>sv_ctr := (sv_ctr sv)\<lparr>reads := reads (sv_ctr sv) + 1\<rparr>\<rparr>, Inl IndexOutOfRange) \<and>
     sv_write sv i v =
       Some (sv\<lparr>sv_ctr := (sv_ctr sv)\<lparr>writes := writes (sv_ctr sv) + 1\<rparr>\<rparr>, Inl IndexOutOfRange)) \<and>
   (i \<ge> N s3 \<longrightarrow>
     read3 s3 i = Some (s3\<lparr>ctr := (ctr s3)\<lparr>reads := reads (ctr s3) + 1\<rparr>\<rparr>, Inl IndexOutOfRange) \<and>
     write3 s3 i v =
       Some (s3\<lparr>ctr := (ctr s3)\<lparr>writes := writes (ctr s3) + 1\<rparr>\<rparr>, Inl IndexOutOfRange)) \<and>
   (i \<ge> N s4 \<longrightarrow>
     read4 s4 i = Some (s4\<lparr>ctr := (ctr s4)\<lparr>reads := reads (ctr s4) + 1\<rparr>\<rparr>, Inl IndexOutOfRange) \<and>
     write4 s4 i v =
       Some (s4\<lparr>ctr := (ctr s4)\<lparr>writes := writes (ctr s4) + 1\<rparr>\<rparr>, Inl IndexOutOfRange))"
  by (simp add: sv_read_def sv_write_def read3_def write3_def read4_def write4_def)

theorem C7_out_of_range_witness:
  "(8::nat) \<ge> sv_N (projr (StdVectorWrapper_new ex_platform 8)) \<and>
   map_option snd (sv_read (projr (StdVectorWrapper_new ex_platform 8)) 8) = Some (Inl IndexOutOfRange) \<and>
   map_option snd (sv_write (projr (StdVectorWrapper_new ex_platform 8)) 8 5) = Some (Inl IndexOutOfRange) \<and>
   (8::nat) \<ge> N (projr (InPlaceArraySec3_new ex_platform 8)) \<and>
   map_option snd (read3 (projr (InPlaceArraySec3_new ex_platform 8)) 8) = Some (Inl IndexOutOfRange) \<and>
   map_option snd (write3 (projr (InPlaceArraySec3_new ex_platform 8)) 8 5) = Some (Inl IndexOutOfRange) \<and>
   (8::nat) \<ge> N (projr (InPlaceArraySec4_new ex_platform 8)) \<and>
   map_option snd (read4 (projr (InPlaceArraySec4_new ex_platform 8)) 8) = Some (Inl IndexOutOfRange) \<and>
   map_option snd (write4 (projr (InPlaceArraySec4_new ex_platform 8)) 8 5) = Some (Inl IndexOutOfRange)"
  using C7_out_of_range [where i = 8 and v = 5 and sv = "projr (StdVectorWrapper_new ex_platform 8)"
      and ?s3.0 = "projr (InPlaceArraySec3_new ex_platform 8)" and ?s4.0 = "projr (InPlaceArraySec4_new ex_platform 8)"]
  by (simp add: StdVectorWrapper_new_def InPlaceArraySec3_new_def InPlaceArraySec4_new_def
      vector_new_def ex_platform_def)

section \<open>The shadow verifier\<close>

lemma word32_less_succ: "(x :: 32 word) + 1 \<noteq> 0 \<Longrightarrow> x < x + 1"
  by (metis add.commute add.right_inverse inc_less_eq_self_iff_eq verit_comp_simplify1(3))

lemma shadow_inv_enable: "shadow_inv (enable_verification s)"
  by (simp add: shadow_inv_def enable_verification_def list_all_length)

lemma N_enable: "N (enable_verification s) = N s"
  by (simp add: enable_verification_def)

lemma expect_enable: "i < N s \<Longrightarrow> expect (enable_verification s) i = Some 0"
  by (simp add: expect_def enable_verification_def vec_get_def)

lemma shadow_on_init_inv:
  assumes "shadow_inv s"
  shows "shadow_inv (shadow_on_init s v) \<and> N (shadow_on_init s v) = N s \<and>
         (\<forall>i < N s. expect (shadow_on_init s v) i = Some v)"
proof (cases "shadow_epoch s + 1 = 0")
  case True
  with assms show ?thesis
    by (simp add: shadow_inv_def shadow_on_init_def Let_def expect_def vec_get_def list_all_length)
next
  case False
  then have lt: "shadow_epoch s < shadow_epoch s + 1" by (rule word32_less_succ)
  have "\<And>i. i < N s \<Longrightarrow> stamp s ! i \<noteq> shadow_epoch s + 1"
    using assms lt by (auto simp: shadow_inv_def list_all_length)
  moreover have "\<And>i. i < N s \<Longrightarrow> stamp s ! i \<le> shadow_epoch s + 1"
    using assms lt by (force simp: shadow_inv_def list_all_length)
  ultimately show ?thesis using assms False
    by (simp add: shadow_inv_def shadow_on_init_def Let_def expect_def vec_get_def list_all_length)
qed

lemma shadow_on_write_inv:
  assumes "shadow_inv s" "j < N s"
  shows "\<exists>s'. shadow_on_write s j v = Some s' \<and> shadow_inv s' \<and> N s' = N s \<and>
           (\<forall>i < N s. expect s' i = (if i = j then Some v else expect s i))"
  using assms
  by (auto simp: shadow_inv_def shadow_on_write_def vec_set_def vec_get_def expect_def
      list_all_length nth_list_update)

lemma mirror_all_expect:
  "shadow_inv s \<Longrightarrow> list_all (in_range (N s)) ops \<Longrightarrow> \<forall>i < N s. expect s i = Some (f i) \<Longrightarrow>
   \<exists>s'. mirror_all s ops = Some s' \<and> shadow_inv s' \<and> N s' = N s \<and>
         (\<forall>i < N s. expect s' i = Some (last_value (f i) ops i))"
proof (induction ops arbitrary: s f)
  case Nil
  then show ?case by simp
next
  case (Cons x xs)
  show ?case
  proof (cases x)
    case (SInit v)
    let ?s1 = "shadow_on_init s v"
    from shadow_on_init_inv [OF Cons.prems(1), of v]
    have 1: "shadow_inv ?s1" "N ?s1 = N s" "\<forall>i < N ?s1. expect ?s1 i = Some v" by simp_all
    from Cons.prems(2) 1 have 2: "list_all (in_range (N ?s1)) xs" by simp
    from Cons.IH [OF 1(1) 2, of "\<lambda>_. v"] 1 SInit show ?thesis by simp
  next
    case (SWrite j v)
    with Cons.prems have j: "j < N s" by simp
    from shadow_on_write_inv [OF Cons.prems(1) j, of v]
    obtain s1 where 1: "shadow_on_write s j v = Some s1" "shadow_inv s1" "N s1 = N s"
      "\<forall>i < N s. expect s1 i = (if i = j then Some v else expect s i)" by blast
    from Cons.prems(2) 1 have 2: "list_all (in_range (N s1)) xs" by simp
    have 3: "\<forall>i < N s1. expect s1 i = Some ((\<lambda>i. if i = j then v else f i) i)"
      using 1 Cons.prems(3) by simp
    from Cons.IH [OF 1(2) 2 3] 1 SWrite show ?thesis by auto
  qed
qed

lemma check_loop_verdict:
  "(\<forall>i \<in> set js. expect s i = Some (e i)) \<Longrightarrow>
   check_loop s (\<lambda>i. Some (g i)) js = Some (\<forall>i \<in> set js. g i = e i)"
  by (induction js) auto

lemma shadow_check_verdict:
  assumes "verifying s" "\<forall>i < N s. expect s i = Some (e i)"
  shows "shadow_check_against s (\<lambda>i. Some (g i)) = Some (\<forall>i < N s. g i = e i)"
  using check_loop_verdict [of "[0..<N s]" s e g] assms
  by (auto simp: shadow_check_against_def)

text \<open>
  Claim C9: the expected value that \<open>shadow_check_against\<close> computes for index \<open>i\<close>
  is \<open>shadow[i]\<close> if \<open>stamp[i]\<close> equals the current epoch and \<open>shadow_initv\<close>
  otherwise: when verification is on, its verdict is true exactly if the value read at every
  index \<open>j < N\<close> equals that expected value (and it is true when verification is off).
  An init increments the epoch and, when the 32-bit counter wraps to 0, clears the stamps and
  restarts the epoch at 1. Hence after \<open>enable_verification\<close> and any sequence of
  mirrored inits and in-range writes, the expected value of every index is the last value
  written to it since the most recent init, or the value of the most recent init (0, the
  value set by \<open>enable_verification\<close>, before the first init), and the verdict of
  \<open>shadow_check_against\<close> is true exactly if every index reads as that value.
\<close>

theorem C9_shadow_expected:
  "(i < length (stamp s) \<and> i < length (shadow s) \<longrightarrow>
      expect s i = Some (if stamp s ! i = shadow_epoch s then shadow s ! i else shadow_initv s)) \<and>
   (\<not> verifying s \<longrightarrow> shadow_check_against s read_actual = Some True) \<and>
   (verifying s \<and> N s \<le> length (stamp s) \<and> N s \<le> length (shadow s) \<longrightarrow>
      shadow_check_against s (\<lambda>j. Some (g j)) =
        Some (\<forall>j < N s. g j =
                (if stamp s ! j = shadow_epoch s then shadow s ! j else shadow_initv s))) \<and>
   (verifying s \<longrightarrow>
      shadow_initv (shadow_on_init s v) = v \<and>
      shadow_epoch (shadow_on_init s v) =
        (if shadow_epoch s + 1 = 0 then 1 else shadow_epoch s + 1) \<and>
      stamp (shadow_on_init s v) =
        (if shadow_epoch s + 1 = 0 then replicate (length (stamp s)) 0 else stamp s)) \<and>
   (list_all (in_range (N s)) ops \<longrightarrow>
      (\<exists>s'. mirror_all (enable_verification s) ops = Some s' \<and>
            (\<forall>j < N s. expect s' j = Some (last_value 0 ops j)) \<and>
            shadow_check_against s' (\<lambda>j. Some (g j)) =
              Some (\<forall>j < N s. g j = last_value 0 ops j)))"
proof (intro conjI impI)
  assume "i < length (stamp s) \<and> i < length (shadow s)"
  then show "expect s i =
      Some (if stamp s ! i = shadow_epoch s then shadow s ! i else shadow_initv s)"
    by (simp add: expect_def vec_get_def)
next
  assume "\<not> verifying s"
  then show "shadow_check_against s read_actual = Some True"
    by (simp add: shadow_check_against_def)
next
  assume a: "verifying s \<and> N s \<le> length (stamp s) \<and> N s \<le> length (shadow s)"
  then have "\<forall>j < N s. expect s j =
      Some (if stamp s ! j = shadow_epoch s then shadow s ! j else shadow_initv s)"
    by (simp add: expect_def vec_get_def)
  with a show "shadow_check_against s (\<lambda>j. Some (g j)) =
        Some (\<forall>j < N s. g j =
                (if stamp s ! j = shadow_epoch s then shadow s ! j else shadow_initv s))"
    by (simp add: shadow_check_verdict)
next
  assume "verifying s"
  then show "shadow_initv (shadow_on_init s v) = v"
    and "shadow_epoch (shadow_on_init s v) =
        (if shadow_epoch s + 1 = 0 then 1 else shadow_epoch s + 1)"
    and "stamp (shadow_on_init s v) =
        (if shadow_epoch s + 1 = 0 then replicate (length (stamp s)) 0 else stamp s)"
    by (simp_all add: shadow_on_init_def Let_def)
next
  assume r: "list_all (in_range (N s)) ops"
  let ?e = "enable_verification s"
  have "list_all (in_range (N ?e)) ops" using r by (simp add: N_enable)
  moreover have "\<forall>i < N ?e. expect ?e i = Some ((\<lambda>_. 0) i)"
    by (simp add: N_enable expect_enable)
  ultimately obtain s' where s': "mirror_all ?e ops = Some s'" "shadow_inv s'" "N s' = N s"
    "\<forall>j < N s. expect s' j = Some (last_value 0 ops j)"
    using mirror_all_expect [OF shadow_inv_enable, of s ops "\<lambda>_. 0"]
    by (auto simp: N_enable)
  have "verifying s'" using s'(2) by (simp add: shadow_inv_def)
  from shadow_check_verdict [OF this, of "\<lambda>j. last_value 0 ops j" g] s'(3,4)
  have "shadow_check_against s' (\<lambda>j. Some (g j)) = Some (\<forall>j < N s. g j = last_value 0 ops j)"
    by simp
  with s'(1,4) show "\<exists>s'. mirror_all ?e ops = Some s' \<and>
            (\<forall>j < N s. expect s' j = Some (last_value 0 ops j)) \<and>
            shadow_check_against s' (\<lambda>j. Some (g j)) =
              Some (\<forall>j < N s. g j = last_value 0 ops j)"
    by blast
qed

theorem C9_shadow_expected_witness:
  "(1::nat) < length (stamp ex_wrap) \<and> 1 < length (shadow ex_wrap) \<and>
   expect ex_wrap 0 = Some 5 \<and> expect ex_wrap 1 = Some 0 \<and>
   \<not> verifying (enable_verification ex_wrap\<lparr>verifying := False\<rparr>) \<and>
   shadow_check_against (enable_verification ex_wrap\<lparr>verifying := False\<rparr>) (\<lambda>j. None) = Some True \<and>
   verifying ex_wrap \<and> N ex_wrap \<le> length (stamp ex_wrap) \<and>
   N ex_wrap \<le> length (shadow ex_wrap) \<and>
   shadow_check_against ex_wrap (\<lambda>j. Some ([5, 0] ! j)) = Some True \<and>
   shadow_check_against ex_wrap (\<lambda>j. Some ([5, 1] ! j)) = Some False \<and>
   shadow_epoch (shadow_on_init ex_wrap 9) = 1 \<and> stamp (shadow_on_init ex_wrap 9) = [0, 0] \<and>
   list_all (in_range (N ex_wrap)) [SWrite 0 3, SInit 7, SWrite 1 4] \<and>
   (\<exists>s'. mirror_all (enable_verification ex_wrap) [SWrite 0 3, SInit 7, SWrite 1 4] = Some s' \<and>
      expect s' 0 = Some 7 \<and> expect s' 1 = Some 4 \<and>
      shadow_check_against s' (\<lambda>j. Some ([7, 4] ! j)) = Some True \<and>
      shadow_check_against s' (\<lambda>j. Some ([3, 4] ! j)) = Some False)"
proof -
  let ?ops = "[SWrite 0 3, SInit 7, SWrite 1 4]"
  note a = C9_shadow_expected [of 0 ex_wrap "\<lambda>j. None" "\<lambda>j. [5, 0] ! j" 9 ?ops]
  note b = C9_shadow_expected [of 1 ex_wrap "\<lambda>j. None" "\<lambda>j. [5, 1] ! j" 9 ?ops]
  note c = C9_shadow_expected [of 0 "enable_verification ex_wrap\<lparr>verifying := False\<rparr>"
      "\<lambda>j. None" "\<lambda>j. 0" 9 "[]"]
  note d = C9_shadow_expected [of 0 ex_wrap "\<lambda>j. None" "\<lambda>j. [7, 4] ! j" 9 ?ops]
  note e = C9_shadow_expected [of 0 ex_wrap "\<lambda>j. None" "\<lambda>j. [3, 4] ! j" 9 ?ops]
  have N: "N ex_wrap = 2" "\<And>P. (\<forall>j<2::nat. P j) = (P 0 \<and> P 1)"
    by (auto simp: ex_wrap_def less_2_cases_iff)
  have r: "list_all (in_range (N ex_wrap)) ?ops" by (simp add: ex_wrap_def)
  from d e r obtain s' where s': "mirror_all (enable_verification ex_wrap) ?ops = Some s'"
    "\<forall>j < N ex_wrap. expect s' j = Some (last_value 0 ?ops j)"
    "shadow_check_against s' (\<lambda>j. Some ([7, 4] ! j)) =
       Some (\<forall>j < N ex_wrap. [7, 4] ! j = last_value 0 ?ops j)"
    "shadow_check_against s' (\<lambda>j. Some ([3, 4] ! j)) =
       Some (\<forall>j < N ex_wrap. [3, 4] ! j = last_value 0 ?ops j)"
    by auto
  have 1: "expect s' 0 = Some 7 \<and> expect s' 1 = Some 4 \<and>
      shadow_check_against s' (\<lambda>j. Some ([7, 4] ! j)) = Some True \<and>
      shadow_check_against s' (\<lambda>j. Some ([3, 4] ! j)) = Some False"
    using s'(2,3,4) unfolding N by simp
  have 2: "(1::nat) < length (stamp ex_wrap) \<and> 1 < length (shadow ex_wrap) \<and>
   expect ex_wrap 0 = Some 5 \<and> expect ex_wrap 1 = Some 0 \<and>
   verifying ex_wrap \<and> N ex_wrap \<le> length (stamp ex_wrap) \<and>
   N ex_wrap \<le> length (shadow ex_wrap) \<and>
   shadow_check_against ex_wrap (\<lambda>j. Some ([5, 0] ! j)) = Some True \<and>
   shadow_check_against ex_wrap (\<lambda>j. Some ([5, 1] ! j)) = Some False \<and>
   shadow_epoch (shadow_on_init ex_wrap 9) = 1 \<and> stamp (shadow_on_init ex_wrap 9) = [0, 0]"
    using a b unfolding N by (simp add: ex_wrap_def)
  have 3: "\<not> verifying (enable_verification ex_wrap\<lparr>verifying := False\<rparr>) \<and>
   shadow_check_against (enable_verification ex_wrap\<lparr>verifying := False\<rparr>) (\<lambda>j. None) = Some True"
    using c by simp
  from 1 2 3 r s'(1) show ?thesis by blast
qed

section \<open>init of InPlaceArraySec3\<close>

text \<open>
  Claim C10, as stated: init changes nothing but initv, b, the inits counter and the shadow
  scalars. When verification is enabled and the 32-bit epoch wraps, init also clears the
  stamp table, which is a vector and not a scalar.
\<close>

theorem C10_init_clears_stamps: "stamp (init3 ex_wrap 9) \<noteq> stamp ex_wrap"
  by (simp add: init3_def shadow_on_init_def ex_wrap_def)

text \<open>
  Claim C10, amended: init(v) of InPlaceArraySec3 writes no cell of A; it sets initv to v and
  b to 0 and increments the inits counter; when verification is enabled it also changes the
  shadow scalars and, when the epoch counter wraps, clears the stamp table; nothing else
  changes.
\<close>

theorem C10_init_frame:
  "A (init3 s v) = A s \<and> N (init3 s v) = N s \<and> N_blocks (init3 s v) = N_blocks s \<and>
   verifying (init3 s v) = verifying s \<and> shadow (init3 s v) = shadow s \<and>
   initv (init3 s v) = v \<and> b (init3 s v) = 0 \<and>
   ctr (init3 s v) = (ctr s)\<lparr>inits := inits (ctr s) + 1\<rparr> \<and>
   stamp (init3 s v) =
     (if verifying s \<and> shadow_epoch s + 1 = 0 then replicate (length (stamp s)) 0
      else stamp s) \<and>
   (\<not> verifying s \<longrightarrow>
      shadow_initv (init3 s v) = shadow_initv s \<and> shadow_epoch (init3 s v) = shadow_epoch s)"
  by (simp add: init3_def shadow_on_init_def Let_def)

theorem C10_init_frame_witness:
  "A (init3 (projr (InPlaceArraySec3_new ex_platform 4)) 7) = replicate 4 0 \<and>
   initv (init3 (projr (InPlaceArraySec3_new ex_platform 4)) 7) = 7 \<and>
   \<not> verifying (projr (InPlaceArraySec3_new ex_platform 4)) \<and>
   shadow_epoch (init3 (projr (InPlaceArraySec3_new ex_platform 4)) 7) = 0 \<and>
   A (init3 ex_wrap 9) = [0, 0] \<and> stamp (init3 ex_wrap 9) = [0, 0]"
  using C10_init_frame [of "projr (InPlaceArraySec3_new ex_platform 4)" 7] C10_init_frame [of ex_wrap 9]
  by (simp add: InPlaceArraySec3_new_def vector_new_def ex_platform_def ex_wrap_def)

section \<open>The stash of InPlaceArraySec4\<close>

text \<open>
  Claim C3 at \<open>N = 8\<close>, \<open>init(7); write(7, 1)\<close>: the write extends the written area over
  block 0 (b becomes 1, the flag stays false, the stash is synchronised), then initialises the
  last block, which overwrites the stash: cell \<open>first(N_blocks - 1) + 2 = 6\<close> holds 7, not b.
\<close>

theorem C3_stash_overwritten:
  "map_option (\<lambda>s. (flag s, b s, initv s, first_of4 (N_blocks s - 1) + 2, A s))
     (run4 (projr (InPlaceArraySec4_new ex_platform 8)) [Init 7, Write 7 1]) =
   Some (False, 1, 7, 6, [4, 7, 7, 7, 0, 7, 7, 1])"
  unfolding new4_at_8 by code_simp

section \<open>Correctness of the block operations\<close>

lemma dec_Some_iff: 
  assumes "0 < B" shows "dec B nb v = Some k \<longleftrightarrow> v = enc B k \<and> k < nb"
proof
  assume "dec B nb v = Some k"
  then have h: "v mod int B = 0" "0 \<le> v" "nat v < B * nb" "k = nat v div B"
    by (auto simp: dec_def split: if_splits)
  from h(2) obtain n where n: "v = int n" by (metis nonneg_int_cases)
  with h(1) have "int (n mod B) = 0" by (simp add: zmod_int)
  then have "n mod B = 0" by simp
  then have "n = B * (n div B)" by auto
  moreover from h n have "n div B < nb" by (simp add: less_mult_imp_div_less mult.commute)
  ultimately show "v = enc B k \<and> k < nb" using h n by (simp add: enc_def)
next
  assume a: "v = enc B k \<and> k < nb"
  then have "nat v = B * k" "v mod int B = 0" "0 \<le> v"
    by (simp_all add: enc_def nat_mult_distrib)
  with a assms show "dec B nb v = Some k" by (simp add: dec_def)
qed

lemma dec_enc: "0 < B \<Longrightarrow> k < nb \<Longrightarrow> dec B nb (enc B k) = Some k"
  by (simp add: dec_Some_iff)

lemma enc_inj: "0 < B \<Longrightarrow> enc B x = enc B y \<longleftrightarrow> x = y"
  by (simp add: enc_def)

lemma g_chained_iff:
  "0 < B \<Longrightarrow> g_chained B nb c bd x = Some k \<longleftrightarrow>
     k < nb \<and> c x 0 = enc B k \<and> c k 0 = enc B x \<and> cross bd x k"
proof (cases "dec B nb (c x 0)")
  case None
  assume "0 < B"
  with None have "\<And>j. \<not> (c x 0 = enc B j \<and> j < nb)"
    by (metis dec_Some_iff option.distinct(1))
  with None show ?thesis by (auto simp: g_chained_def)
next
  case (Some j)
  assume "0 < B"
  with Some have j: "c x 0 = enc B j" "j < nb" by (simp_all add: dec_Some_iff)
  show ?thesis using Some j \<open>0 < B\<close> by (auto simp: g_chained_def enc_inj)
qed

lemma g_chained_None_iff:
  "0 < B \<Longrightarrow> g_chained B nb c bd x = None \<longleftrightarrow>
     (\<forall>k. \<not> (k < nb \<and> c x 0 = enc B k \<and> c k 0 = enc B x \<and> cross bd x k))"
  by (metis g_chained_iff not_None_eq)

lemma g_chained_sym:
  "0 < B \<Longrightarrow> x < nb \<Longrightarrow> g_chained B nb c bd x = Some k \<Longrightarrow> g_chained B nb c bd k = Some x"
  by (auto simp: g_chained_iff cross_def)

lemma g_chained_side:
  "0 < B \<Longrightarrow> g_chained B nb c bd x = Some k \<Longrightarrow> k < nb \<and> k \<noteq> x \<and> (x < bd \<longleftrightarrow> bd \<le> k)"
  by (auto simp: g_chained_iff cross_def)

lemma g_chained_top: "0 < B \<Longrightarrow> nb \<le> bd \<Longrightarrow> x < nb \<Longrightarrow> g_chained B nb c bd x = None"
  by (auto simp: g_chained_None_iff cross_def)

lemma g_chained_zero: "0 < B \<Longrightarrow> g_chained B nb c 0 x = None"
  by (auto simp: g_chained_None_iff cross_def)

text \<open>Overwriting a block of the written area and then breaking its chain, as \<open>initBlock\<close>
  followed by \<open>breakChain\<close> does: the block is unchained afterwards and every other block
  keeps its partner and its contents.\<close>

lemma sb_chain_self:
  assumes B: "0 < B" and x: "x < bd" "bd \<le> nb"
  shows "g_chained B nb (g_break B nb (c(x := blk)) bd x) bd x = None"
  using assms
  by (auto simp: g_break_def put_def g_chained_iff g_chained_None_iff cross_def enc_inj split: option.splits)

lemma opt_eqI: "(\<And>k. (p = Some k) = (q = Some k)) \<Longrightarrow> p = q"
  by (cases p; cases q; auto)

lemma sb_chain_other:
  assumes B: "0 < B" and x: "x < bd" "bd \<le> nb" and y: "y \<noteq> x" "y < nb"
  shows "g_chained B nb (g_break B nb (c(x := blk)) bd x) bd y =
         (if g_chained B nb c bd y = Some x then None else g_chained B nb c bd y)"
proof (cases "g_chained B nb (c(x := blk)) bd x")
  case None
  then have n: "\<And>k. \<not> (k < nb \<and> blk 0 = enc B k \<and> (c(x := blk)) k 0 = enc B x \<and> cross bd x k)"
    using B by (simp add: g_chained_None_iff)
  from n [of y] y have ny: "\<not> (blk 0 = enc B y \<and> c y 0 = enc B x \<and> cross bd x y)" by simp
  have "g_break B nb (c(x := blk)) bd x = c(x := blk)" using None by (simp add: g_break_def)
  moreover have "g_chained B nb (c(x := blk)) bd y =
         (if g_chained B nb c bd y = Some x then None else g_chained B nb c bd y)"
    apply (rule opt_eqI)
    using B x y ny
    apply (auto simp: g_chained_iff cross_def enc_inj)
    done
  ultimately show ?thesis by simp
next
  case (Some j)
  then have j: "j < nb" "blk 0 = enc B j" "(c(x := blk)) j 0 = enc B x" "cross bd x j"
    using B by (simp_all add: g_chained_iff)
  then have jx: "j \<noteq> x" "bd \<le> j" "c j 0 = enc B x" using x by (auto simp: cross_def)
  have "g_break B nb (c(x := blk)) bd x = put (c(x := blk)) j 0 (enc B j)"
    using Some by (simp add: g_break_def)
  moreover have "g_chained B nb (put (c(x := blk)) j 0 (enc B j)) bd y =
         (if g_chained B nb c bd y = Some x then None else g_chained B nb c bd y)"
    apply (rule opt_eqI)
    using B x y j jx
    apply (auto simp: g_chained_iff cross_def enc_inj put_def)
    done
  ultimately show ?thesis by simp
qed

lemma g_break_cell: "u \<noteq> 0 \<Longrightarrow> g_break B nb c bd x y u = c y u"
  by (simp add: g_break_def put_def split: option.splits)

lemma g_break_wca: "0 < B \<Longrightarrow> x < bd \<Longrightarrow> y < bd \<Longrightarrow> g_break B nb c bd x y = c y"
  by (auto simp: g_break_def put_def g_chained_iff cross_def split: option.splits)

lemma sb_read:
  assumes B: "1 < B" and x: "x < bd" "bd \<le> nb" and y: "y < nb"
  shows "g_read B nb (g_break B nb (c(x := blk)) bd x) bd iv y u =
         (if y = x then blk u
          else if g_chained B nb c bd y = Some x then iv
          else g_read B nb c bd iv y u)"
proof (cases "y = x")
  case True
  have "g_chained B nb (g_break B nb (c(x := blk)) bd x) bd x = None"
    using B x by (simp add: sb_chain_self)
  moreover have "g_break B nb (c(x := blk)) bd x x = blk"
    using B x by (simp add: g_break_wca)
  ultimately show ?thesis using True x by (simp add: g_read_def)
next
  case False
  let ?c = "g_break B nb (c(x := blk)) bd x"
  have ch: "g_chained B nb ?c bd y =
         (if g_chained B nb c bd y = Some x then None else g_chained B nb c bd y)"
    using B x y False by (simp add: sb_chain_other)
  show ?thesis
  proof (cases "g_chained B nb c bd y = Some x")
    case True
    then have "bd \<le> y" using B x by (auto simp: g_chained_iff cross_def)
    with True ch False show ?thesis by (simp add: g_read_def)
  next
    case nx: False
    show ?thesis
    proof (cases "g_chained B nb c bd y")
      case None
      with ch nx False B x show ?thesis by (simp add: g_read_def g_break_wca)
    next
      case (Some k)
      with nx have kx: "k \<noteq> x" by simp
      have "y \<ge> bd \<Longrightarrow> \<not> u < B - 1 \<Longrightarrow> ?c y u = c y u"
        using False B by (cases "u = 0") (simp_all add: g_break_cell)
      with Some ch nx False B x kx show ?thesis by (simp add: g_read_def g_break_cell)
    qed
  qed
qed

lemma bs_chain:
  assumes "0 < B" "y \<noteq> bd" "y < nb"
  shows "(if g_chained B nb c (Suc bd) y = Some bd then None else g_chained B nb c (Suc bd) y) =
         (if g_chained B nb c bd y = Some bd then None else g_chained B nb c bd y)"
proof (rule opt_eqI)
  fix k
  show "((if g_chained B nb c (Suc bd) y = Some bd then None else g_chained B nb c (Suc bd) y) = Some k) =
        ((if g_chained B nb c bd y = Some bd then None else g_chained B nb c bd y) = Some k)"
  proof (cases "k = bd")
    case True
    then show ?thesis by auto
  next
    case False
    then have "cross (Suc bd) y k = cross bd y k" using assms(2) by (auto simp: cross_def)
    with False assms show ?thesis by (auto simp: g_chained_iff enc_inj)
  qed
qed

lemma bs_read:
  assumes "0 < B" "y \<noteq> bd" "y < nb" "g_chained B nb c bd y \<noteq> Some bd"
  shows "(if g_chained B nb c (Suc bd) y = Some bd then iv else g_read B nb c (Suc bd) iv y u) =
         g_read B nb c bd iv y u"
proof (cases "g_chained B nb c (Suc bd) y = Some bd")
  case True
  then have "bd < y" "g_chained B nb c bd y = None" using assms
    by (auto simp: g_chained_iff g_chained_None_iff cross_def enc_inj)
  with True show ?thesis by (simp add: g_read_def)
next
  case False
  with bs_chain [OF assms(1-3), of c] assms(4)
  have "g_chained B nb c (Suc bd) y = g_chained B nb c bd y" by simp
  with False assms(2) show ?thesis by (auto simp: g_read_def split: option.splits)
qed

lemma g_chained_cong:
  "(\<And>z. c' z 0 = c z 0) \<Longrightarrow> g_chained B nb c' bd x = g_chained B nb c bd x"
  by (auto simp: g_chained_def split: option.splits)

lemma put_other: "t \<noteq> u \<Longrightarrow> put c x t v y u = c y u"
  by (simp add: put_def)

lemma put_apply: "put c x t v y u = (if y = x \<and> u = t then v else c y u)"
  by (simp add: put_def)

lemma g_sync_chained:
  "g_chained B nb (g_sync st nb c bd iv) bd' y = g_chained B nb c bd' y"
  by (rule g_chained_cong) (simp add: g_sync_def put_apply)

lemma g_sync_read:
  assumes "st \<longrightarrow> 3 < B"
  shows "g_read B nb (g_sync st nb c bd iv) bd iv' y u = g_read B nb c bd iv' y u"
proof (cases "st \<and> bd < nb")
  case False
  then show ?thesis by (auto simp: g_sync_def)
next
  case True
  with assms have B: "3 < B" by simp
  have cells: "\<And>z w. (z < bd \<or> w = 0 \<or> w \<ge> B - 1) \<Longrightarrow> g_sync st nb c bd iv z w = c z w"
    using True B by (auto simp: g_sync_def put_apply)
  have side: "\<And>k. g_chained B nb c bd y = Some k \<Longrightarrow> \<not> y < bd \<Longrightarrow> k < bd"
    using B by (auto simp: g_chained_iff cross_def)
  show ?thesis
    unfolding g_read_def g_sync_chained
    using cells side by (auto split: option.splits)
qed

lemma g_sync_wca: "z < bd \<Longrightarrow> g_sync st nb c bd iv z = c z"
  by (auto simp: g_sync_def put_def)

lemma g_chained_not_partner:
  assumes "0 < B" "y < nb" "g_chained B nb c bd x = Some k" "y \<noteq> x"
  shows "g_chained B nb c bd y \<noteq> Some k"
  using assms by (auto simp: g_chained_iff enc_inj)

lemma g_chained_unchained_partner:
  assumes "0 < B" "y < nb" "g_chained B nb c bd x = None"
  shows "g_chained B nb c bd y \<noteq> Some x"
  using assms g_chained_sym [of B y nb c bd x] by auto

lemma g_extend_None:
  assumes B: "1 < B" and st: "st \<longrightarrow> 3 < B" and bd: "bd < nb"
    and ch: "g_chained B nb c bd bd = None"
  shows "extend_post B nb c bd iv
           (g_sync st nb (g_break B nb (g_init B c iv bd) (Suc bd) bd) (Suc bd) iv) bd"
proof -
  let ?blk = "\<lambda>t. if t < B then iv else c bd t"
  let ?c2 = "g_break B nb (c(bd := ?blk)) (Suc bd) bd"
  let ?c' = "g_sync st nb ?c2 (Suc bd) iv"
  have B0: "0 < B" using B by simp
  have x: "bd < Suc bd" "Suc bd \<le> nb" using bd by simp_all
  have np: "\<And>y. y < nb \<Longrightarrow> g_chained B nb c bd y \<noteq> Some bd"
    using g_chained_unchained_partner [OF B0 _ ch] .
  have c2bd: "?c2 bd = ?blk" using B0 by (simp add: g_break_wca)
  have 1: "\<forall>u < B. ?c' bd u = iv" by (simp add: g_sync_wca c2bd)
  have 2: "g_chained B nb ?c' (Suc bd) bd = None"
    unfolding g_sync_chained by (rule sb_chain_self [OF B0 x])
  have 3: "g_read B nb ?c' (Suc bd) iv y u = g_read B nb c bd iv y u" if "y < nb" "u < B" for y u
  proof (cases "y = bd")
    case True
    have "g_read B nb ?c' (Suc bd) iv y u = ?blk u"
      using that True by (simp add: g_sync_read [OF st] sb_read [OF B x])
    also have "\<dots> = g_read B nb c bd iv y u" using that True ch by (simp add: g_read_def)
    finally show ?thesis .
  next
    case False
    with that show ?thesis
      by (simp add: g_sync_read [OF st] sb_read [OF B x] bs_read [OF B0 False that(1) np])
  qed
  have 4: "g_chained B nb ?c' (Suc bd) y = g_chained B nb c bd y" if "y < nb" "y \<noteq> bd" for y
    using that np [of y] bs_chain [OF B0 that(2,1), of c]
    by (simp add: g_sync_chained sb_chain_other [OF B0 x])
  show ?thesis
    unfolding extend_post_def g_init_def using 1 2 3 4 ch by simp
qed

lemma g_extend_Some:
  assumes B: "1 < B" and st: "st \<longrightarrow> 3 < B" and bd: "bd < nb"
    and ch: "g_chained B nb c bd bd = Some k"
  shows "extend_post B nb c bd iv
           (g_sync st nb
             (g_break B nb (g_init B (g_break B nb (g_copy B c bd k) (Suc bd) bd) iv k) (Suc bd) k)
             (Suc bd) iv) k"
proof -
  let ?blk2 = "\<lambda>t. if t < B - 1 then c k (t + 1) else c bd t"
  let ?c2 = "g_break B nb (c(bd := ?blk2)) (Suc bd) bd"
  let ?blk3 = "\<lambda>t. if t < B then iv else ?c2 k t"
  let ?c4 = "g_break B nb (?c2(k := ?blk3)) (Suc bd) k"
  let ?c' = "g_sync st nb ?c4 (Suc bd) iv"
  have B0: "0 < B" using B by simp
  have k: "k < bd" "k < nb" "k \<noteq> bd" using ch B0 by (auto simp: g_chained_iff cross_def)
  have chk: "g_chained B nb c bd k = Some bd" using g_chained_sym [OF B0 bd ch] .
  have x: "bd < Suc bd" "Suc bd \<le> nb" using bd by simp_all
  have xk: "k < Suc bd" using k by simp
  have np: "g_chained B nb c bd y \<noteq> Some bd" if "y < nb" "y \<noteq> k" for y
    using g_chained_not_partner [OF B0 that(1) chk that(2)] .
  have npk: "g_chained B nb c bd y \<noteq> Some k" if "y < nb" "y \<noteq> bd" for y
    using g_chained_not_partner [OF B0 that(1) ch that(2)] .
  have c2ch: "g_chained B nb ?c2 (Suc bd) y = (if y = k then None else g_chained B nb c bd y)"
    if "y < nb" "y \<noteq> bd" for y
    using that chk bs_chain [OF B0 that(2,1), of c] np [of y]
    by (auto simp add: sb_chain_other [OF B0 x])
  have c2bd: "g_chained B nb ?c2 (Suc bd) bd = None" by (rule sb_chain_self [OF B0 x])
  have c2nk: "g_chained B nb ?c2 (Suc bd) y \<noteq> Some k" if "y < nb" for y
    using that c2ch [of y] c2bd npk [of y] by (cases "y = bd") auto
  have 1: "\<forall>u < B. ?c' k u = iv" using B0 xk by (simp add: g_sync_wca g_break_wca)
  have 2: "g_chained B nb ?c' (Suc bd) k = None"
    unfolding g_sync_chained by (rule sb_chain_self [OF B0 xk x(2)])
  have r2: "g_read B nb ?c2 (Suc bd) iv y u = g_read B nb c bd iv y u" if "y < nb" "u < B" "y \<noteq> k" for y u
  proof (cases "y = bd")
    case True
    have "g_read B nb ?c2 (Suc bd) iv y u = ?blk2 u"
      using that True by (simp add: sb_read [OF B x])
    also have "\<dots> = g_read B nb c bd iv y u" using that True ch by (simp add: g_read_def)
    finally show ?thesis .
  next
    case False
    with that show ?thesis
      by (simp add: sb_read [OF B x] bs_read [OF B0 False that(1) np])
  qed
  have 3: "g_read B nb ?c' (Suc bd) iv y u = g_read B nb c bd iv y u" if "y < nb" "u < B" for y u
  proof (cases "y = k")
    case True
    have "g_read B nb ?c' (Suc bd) iv y u = ?blk3 u"
      using that True by (simp add: g_sync_read [OF st] sb_read [OF B xk x(2)])
    also have "\<dots> = g_read B nb c bd iv y u" using that True chk k by (simp add: g_read_def)
    finally show ?thesis .
  next
    case False
    with that c2nk [of y] r2 [of y u] show ?thesis
      by (simp add: g_sync_read [OF st] sb_read [OF B xk x(2)])
  qed
  have 4: "g_chained B nb ?c' (Suc bd) y = g_chained B nb c bd y" if "y < nb" "y \<noteq> bd" "y \<noteq> k" for y
    using that c2nk [of y] c2ch [of y]
    by (simp add: g_sync_chained sb_chain_other [OF B0 xk x(2)])
  show ?thesis
    unfolding extend_post_def g_init_def g_copy_def using 1 2 3 4 ch k by simp
qed

lemma g_extend_post:
  assumes "1 < B" "st \<longrightarrow> 3 < B" "bd < nb"
  shows "extend_post B nb c bd iv (fst (g_extend B nb st c bd iv)) (snd (g_extend B nb st c bd iv))"
proof (cases "g_chained B nb c bd bd")
  case None
  with g_extend_None [OF assms None] show ?thesis by (simp add: g_extend_def)
next
  case (Some k)
  with g_extend_Some [OF assms Some] show ?thesis by (simp add: g_extend_def)
qed

lemma g_through_read:
  assumes B: "1 < B" and ch: "g_chained B nb c bd x = Some k" and x: "bd \<le> x" "x < nb"
    and y: "y < nb" and t: "t < B" and u: "u < B"
  shows "g_read B nb (g_through B c k x t v) bd iv y u =
         (if y = x \<and> u = t then v else g_read B nb c bd iv y u)"
proof -
  let ?c = "g_through B c k x t v"
  have B0: "0 < B" using B by simp
  have k: "k < bd" "k < nb" "k \<noteq> x" using ch B0 x by (auto simp: g_chained_iff cross_def)
  have chk: "g_chained B nb c bd k = Some x" using g_chained_sym [OF B0 x(2) ch] .
  have first: "\<And>z. ?c z 0 = c z 0" using B t by (auto simp: g_through_def put_apply)
  have same: "g_chained B nb ?c bd z = g_chained B nb c bd z" for z
    by (rule g_chained_cong) (rule first)
  have cells: "?c z w = (if t < B - 1 then (if z = k \<and> w = t + 1 then v else c z w)
                          else (if z = x \<and> w = t then v else c z w))" for z w
    by (simp add: g_through_def put_apply)
  show ?thesis
  proof (cases "g_chained B nb c bd y")
    case None
    then have "y \<noteq> x" "y \<noteq> k" using ch chk by auto
    with None x k show ?thesis by (auto simp: g_read_def same cells)
  next
    case (Some j)
    show ?thesis
    proof (cases "y = x")
      case True
      with Some ch have "j = k" by simp
      with True Some x k t u show ?thesis by (auto simp: g_read_def same cells)
    next
      case False
      then have "j \<noteq> k" using g_chained_not_partner [OF B0 y ch] Some by auto
      moreover have "j = x \<Longrightarrow> y = k" using g_chained_sym [OF B0 y Some] ch by simp
      ultimately show ?thesis using False Some x k t u by (auto simp: g_read_def same cells)
    qed
  qed
qed

lemma adopt_chain:
  assumes B: "0 < B" and r: "r < bd" and x: "bd \<le> x" "x < nb"
  shows "g_chained B nb (g_make B (g_init B c iv x) r x) bd x = Some r"
  using assms by (auto simp: g_chained_iff g_make_def g_init_def put_apply cross_def)

lemma adopt_read:
  assumes B: "1 < B" and r: "r < bd" and x: "bd \<le> x" "x < nb"
    and chr: "g_chained B nb c bd r = None" and chx: "g_chained B nb c bd x = None"
    and iv: "\<forall>u < B. c r u = iv" and y: "y < nb" and u: "u < B"
  shows "g_read B nb (g_make B (g_init B c iv x) r x) bd iv y u = g_read B nb c bd iv y u"
proof -
  let ?c = "g_make B (g_init B c iv x) r x"
  have B0: "0 < B" using B by simp
  have rx: "r \<noteq> x" "r < nb" using r x by simp_all
  have cx: "g_chained B nb ?c bd x = Some r" by (rule adopt_chain [OF B0 r x])
  have cr: "g_chained B nb ?c bd r = Some x" using g_chained_sym [OF B0 x(2) cx] .
  have cells: "?c z w = (if z = x then (if w = 0 then enc B r else if w < B then iv else c x w)
                         else if z = r \<and> w = 0 then enc B x else c z w)" for z w
    using rx by (auto simp: g_make_def g_init_def put_apply)
  show ?thesis
  proof (cases "y = x \<or> y = r")
    case True
    then show ?thesis using cx cr chr chx r x rx iv u B
      by (auto simp: g_read_def cells)
  next
    case False
    have nr: "g_chained B nb c bd y \<noteq> Some r" using g_chained_unchained_partner [OF B0 y chr] .
    have nx: "g_chained B nb c bd y \<noteq> Some x" using g_chained_unchained_partner [OF B0 y chx] .
    have same: "g_chained B nb ?c bd y = g_chained B nb c bd y"
      apply (rule opt_eqI)
      using False nr nx B0 rx x
      apply (auto simp: g_chained_iff cells enc_inj)
      done
    show ?thesis using False nr nx
      by (auto simp: g_read_def same cells split: option.splits)
  qed
qed

lemma rehome_read:
  assumes B: "1 < B" and bd: "bd \<le> nb" and x: "x < bd" and r: "r < bd" "r \<noteq> x"
    and chx: "g_chained B nb c bd x = Some k" and chr: "g_chained B nb c bd r = None"
    and iv: "\<forall>u < B. c r u = iv" and y: "y < nb" "y \<noteq> x" and u: "u < B"
  shows "(if g_chained B nb (g_make B (g_swap c r x) r k) bd y = Some x then iv
          else g_read B nb (g_make B (g_swap c r x) r k) bd iv y u) =
         g_read B nb c bd iv y u"
proof -
  let ?c = "g_make B (g_swap c r x) r k"
  have B0: "0 < B" using B by simp
  have k: "bd \<le> k" "k < nb" "k \<noteq> x" "k \<noteq> r" "c x 0 = enc B k" "c k 0 = enc B x"
    using chx B0 x r by (auto simp: g_chained_iff cross_def)
  have xnb: "x < nb" "r < nb" using x r bd by simp_all
  have chk: "g_chained B nb c bd k = Some x" using g_chained_sym [OF B0 xnb(1) chx] .
  have cells: "?c z w = (if z = r then (if w = 0 then enc B k else c x w)
                         else if z = x then c r w
                         else if z = k \<and> w = 0 then enc B r else c z w)" for z w
    using r k by (auto simp: g_make_def g_swap_def put_apply)
  have cr: "g_chained B nb ?c bd r = Some k"
    using B0 r k by (auto simp: g_chained_iff cells cross_def)
  have ck: "g_chained B nb ?c bd k = Some r" using g_chained_sym [OF B0 xnb(2) cr] .
  show ?thesis
  proof (cases "y = r \<or> y = k")
    case True
    then show ?thesis using cr ck chr chk r k x iv u B
      by (auto simp: g_read_def cells)
  next
    case False
    have nr: "g_chained B nb c bd y \<noteq> Some r" using g_chained_unchained_partner [OF B0 y(1) chr] .
    have nx: "g_chained B nb c bd y \<noteq> Some x"
      using g_chained_not_partner [OF B0 y(1) chk] False by auto
    have nk: "g_chained B nb c bd y \<noteq> Some k" using g_chained_not_partner [OF B0 y(1) chx y(2)] .
    have same: "g_chained B nb ?c bd y =
        (if g_chained B nb ?c bd y = Some x then Some x else g_chained B nb c bd y)"
      apply (rule opt_eqI)
      using False nr nx nk B0 y r k x xnb
      apply (auto simp: g_chained_iff cells enc_inj)
      done
    show ?thesis
    proof (cases "g_chained B nb ?c bd y = Some x")
      case True
      then have "bd \<le> y" using B0 x by (auto simp: g_chained_iff cross_def)
      moreover from True have "c y 0 = enc B x" using B0 False y by (auto simp: g_chained_iff cells)
      then have "g_chained B nb c bd y = None" using nx B0
        by (auto simp: g_chained_iff g_chained_None_iff enc_inj)
      ultimately show ?thesis using True by (simp add: g_read_def)
    next
      case nc: False
      with same have same': "g_chained B nb ?c bd y = g_chained B nb c bd y" by simp
      show ?thesis using nc False y nr nx nk
        by (auto simp: g_read_def same' cells split: option.splits)
    qed
  qed
qed

lemma put_as_upd: "put c x t v = c(x := (c x)(t := v))"
  by (simp add: put_def)

lemma put_init_as_upd:
  "put (g_init B c iv x) x t v = c(x := (\<lambda>w. if w < B then iv else c x w)(t := v))"
  by (simp add: put_def g_init_def)

lemma g_write_unchained_wca:
  assumes B: "1 < B" and bd: "bd \<le> nb" and x: "x < bd" and y: "y < nb"
    and ch: "g_chained B nb c bd x = None"
  shows "g_read B nb (g_break B nb (put c x t v) bd x) bd iv y u =
         (if y = x \<and> u = t then v else g_read B nb c bd iv y u)"
proof -
  have B0: "0 < B" using B by simp
  have np: "g_chained B nb c bd y \<noteq> Some x" using g_chained_unchained_partner [OF B0 y ch] .
  have "g_read B nb (g_break B nb (put c x t v) bd x) bd iv y u =
        (if y = x then ((c x)(t := v)) u else g_read B nb c bd iv y u)"
    using np unfolding put_as_upd by (simp add: sb_read [OF B x bd y])
  also have "\<dots> = (if y = x \<and> u = t then v else g_read B nb c bd iv y u)"
    using ch x by (simp add: g_read_def)
  finally show ?thesis .
qed

lemma g_write_freed_self:
  assumes B: "1 < B" and bd: "bd < nb" and y: "y < nb" and u: "u < B"
    and post: "extend_post B nb c bd iv c1 x"
    and old: "g_read B nb c bd iv x u = iv"
  shows "g_read B nb (g_break B nb (put c1 x t v) (Suc bd) x) (Suc bd) iv y u =
         (if y = x \<and> u = t then v else g_read B nb c bd iv y u)"
proof -
  have B0: "0 < B" using B by simp
  from post have p: "x \<le> bd" "\<forall>u < B. c1 x u = iv" "g_chained B nb c1 (Suc bd) x = None"
    "\<forall>y < nb. \<forall>u < B. g_read B nb c1 (Suc bd) iv y u = g_read B nb c bd iv y u"
    by (simp_all add: extend_post_def)
  have x: "x < Suc bd" "Suc bd \<le> nb" using p(1) bd by simp_all
  have np: "g_chained B nb c1 (Suc bd) y \<noteq> Some x"
    using g_chained_unchained_partner [OF B0 y p(3)] .
  have "g_read B nb (g_break B nb (put c1 x t v) (Suc bd) x) (Suc bd) iv y u =
        (if y = x then ((c1 x)(t := v)) u else g_read B nb c1 (Suc bd) iv y u)"
    using np unfolding put_as_upd by (simp add: sb_read [OF B x y])
  also have "\<dots> = (if y = x \<and> u = t then v else g_read B nb c bd iv y u)"
    using p(2,4) y u old by auto
  finally show ?thesis .
qed

lemma g_write_adopt:
  assumes B: "1 < B" and bd: "bd < nb" and x: "bd \<le> x" "x < nb" and t: "t < B"
    and y: "y < nb" and u: "u < B"
    and ch: "g_chained B nb c bd x = None"
    and post: "extend_post B nb c bd iv c1 r" and rx: "r \<noteq> x"
  shows "g_read B nb (g_through B (g_make B (g_init B c1 iv x) r x) r x t v) (Suc bd) iv y u =
         (if y = x \<and> u = t then v else g_read B nb c bd iv y u)"
proof -
  have B0: "0 < B" using B by simp
  from post have p: "r \<le> bd" "\<forall>u < B. c1 r u = iv" "g_chained B nb c1 (Suc bd) r = None"
    "r \<noteq> bd \<longrightarrow> g_chained B nb c bd bd = Some r"
    "\<forall>y < nb. \<forall>u < B. g_read B nb c1 (Suc bd) iv y u = g_read B nb c bd iv y u"
    "\<forall>y < nb. y \<noteq> bd \<longrightarrow> y \<noteq> r \<longrightarrow> g_chained B nb c1 (Suc bd) y = g_chained B nb c bd y"
    by (simp_all add: extend_post_def)
  have xb: "x \<noteq> bd" using p(4) ch rx by auto
  then have x': "Suc bd \<le> x" using x by simp
  have r: "r < Suc bd" using p(1) by simp
  have chx: "g_chained B nb c1 (Suc bd) x = None" using p(6) x xb rx ch by simp
  let ?c3 = "g_make B (g_init B c1 iv x) r x"
  have c3: "g_chained B nb ?c3 (Suc bd) x = Some r" by (rule adopt_chain [OF B0 r x' x(2)])
  have "g_read B nb (g_through B ?c3 r x t v) (Suc bd) iv y u =
        (if y = x \<and> u = t then v else g_read B nb ?c3 (Suc bd) iv y u)"
    by (rule g_through_read [OF B c3 x' x(2) y t u])
  also have "g_read B nb ?c3 (Suc bd) iv y u = g_read B nb c1 (Suc bd) iv y u"
    by (rule adopt_read [OF B r x' x(2) p(3) chx p(2) y u])
  also have "g_read B nb c1 (Suc bd) iv y u = g_read B nb c bd iv y u" using p(5) y u by simp
  finally show ?thesis .
qed

lemma g_write_rehome:
  assumes B: "1 < B" and bd: "bd < nb" and x: "x < bd" and t: "t < B"
    and y: "y < nb" and u: "u < B"
    and ch: "g_chained B nb c bd x = Some k"
    and post: "extend_post B nb c bd iv c1 r" and rx: "r \<noteq> x"
  shows "g_read B nb
           (g_break B nb (put (g_init B (g_make B (g_swap c1 r x) r k) iv x) x t v) (Suc bd) x)
           (Suc bd) iv y u =
         (if y = x \<and> u = t then v else g_read B nb c bd iv y u)"
proof -
  have B0: "0 < B" using B by simp
  from post have p: "r \<le> bd" "\<forall>u < B. c1 r u = iv" "g_chained B nb c1 (Suc bd) r = None"
    "\<forall>y < nb. \<forall>u < B. g_read B nb c1 (Suc bd) iv y u = g_read B nb c bd iv y u"
    "\<forall>y < nb. y \<noteq> bd \<longrightarrow> y \<noteq> r \<longrightarrow> g_chained B nb c1 (Suc bd) y = g_chained B nb c bd y"
    by (simp_all add: extend_post_def)
  have xs: "x < Suc bd" "Suc bd \<le> nb" "x < nb" using x bd by simp_all
  have r: "r < Suc bd" using p(1) by simp
  have chx: "g_chained B nb c1 (Suc bd) x = Some k" using p(5) xs x rx ch by simp
  let ?c3 = "g_make B (g_swap c1 r x) r k"
  let ?blk = "(\<lambda>w. if w < B then iv else ?c3 x w)(t := v)"
  have "g_read B nb (g_break B nb (put (g_init B ?c3 iv x) x t v) (Suc bd) x) (Suc bd) iv y u =
        (if y = x then ?blk u
         else if g_chained B nb ?c3 (Suc bd) y = Some x then iv
         else g_read B nb ?c3 (Suc bd) iv y u)"
    unfolding put_init_as_upd by (rule sb_read [OF B xs(1,2) y])
  also have "\<dots> = (if y = x then ?blk u else g_read B nb c1 (Suc bd) iv y u)"
    using rehome_read [OF B xs(2,1) r rx chx p(3) p(2) y _ u] by auto
  also have "\<dots> = (if y = x \<and> u = t then v else g_read B nb c bd iv y u)"
    using p(4) y u ch x by (auto simp: g_read_def)
  finally show ?thesis .
qed

theorem g_write_read:
  assumes B: "1 < B" and st: "st \<longrightarrow> 3 < B" and bd: "bd \<le> nb" and x: "x < nb" and t: "t < B"
    and y: "y < nb" and u: "u < B"
  shows "g_read B nb (fst (g_write B nb st c bd iv x t v)) (snd (g_write B nb st c bd iv x t v))
           iv y u =
         (if y = x \<and> u = t then v else g_read B nb c bd iv y u)"
proof -
  have B0: "0 < B" using B by simp
  let ?e = "g_extend B nb st c bd iv"
  show ?thesis
  proof (cases "g_chained B nb c bd x")
    case None
    show ?thesis
    proof (cases "x < bd")
      case True
      with None g_write_unchained_wca [OF B bd True y None] show ?thesis
        by (simp add: g_write_def)
    next
      case False
      then have b: "bd < nb" "bd \<le> x" using x by simp_all
      have post: "extend_post B nb c bd iv (fst ?e) (snd ?e)" by (rule g_extend_post [OF B st b(1)])
      have old: "g_read B nb c bd iv x u = iv" using None False by (simp add: g_read_def)
      show ?thesis
      proof (cases "snd ?e = x")
        case True
        with post have "extend_post B nb c bd iv (fst ?e) x" by simp
        from g_write_freed_self [OF B b(1) y u this old] None False True show ?thesis
          by (simp add: g_write_def split_beta)
      next
        case ne: False
        from g_write_adopt [OF B b(1) b(2) x t y u None post ne] None False ne show ?thesis
          by (simp add: g_write_def split_beta)
      qed
    qed
  next
    case (Some k)
    show ?thesis
    proof (cases "x < bd")
      case True
      have "bd \<le> k" "k < nb" using Some B0 True by (auto simp: g_chained_iff cross_def)
      then have b: "bd < nb" by simp
      have post: "extend_post B nb c bd iv (fst ?e) (snd ?e)" by (rule g_extend_post [OF B st b])
      have old: "g_read B nb c bd iv x u = iv" using Some True by (simp add: g_read_def)
      show ?thesis
      proof (cases "snd ?e = x")
        case eq: True
        with post have "extend_post B nb c bd iv (fst ?e) x" by simp
        from g_write_freed_self [OF B b y u this old] Some True eq show ?thesis
          by (simp add: g_write_def split_beta)
      next
        case ne: False
        from g_write_rehome [OF B b True t y u Some post ne] Some True ne show ?thesis
          by (simp add: g_write_def split_beta)
      qed
    next
      case False
      then have "bd \<le> x" by simp
      from g_through_read [OF B Some this x y t u] Some False show ?thesis
        by (simp add: g_write_def)
    qed
  qed
qed

lemma g_write_bound:
  assumes "0 < B" "bd \<le> nb" "x < nb"
  shows "snd (g_write B nb st c bd iv x t v) \<le> nb"
  using assms
  by (auto simp: g_write_def split_beta g_chained_iff cross_def split: option.splits)

section \<open>The model computes the block operations\<close>

lemma same_frame_refl: "same_frame s s"
  by (simp add: same_frame_def)

lemma same_frame_trans: "same_frame s s1 \<Longrightarrow> same_frame s1 s2 \<Longrightarrow> same_frame s s2"
  by (simp add: same_frame_def)

lemma shape_frame: "shape B s \<Longrightarrow> same_frame s s' \<Longrightarrow> shape B s'"
  by (simp add: shape_def same_frame_def)

lemma idx_div: "u < B \<Longrightarrow> (B * y + u) div B = (y::nat)"
  by simp

lemma idx_mod: "u < B \<Longrightarrow> (B * y + u) mod B = (u::nat)"
  by simp

lemma idx_split:
  "0 < B \<Longrightarrow> u < B \<Longrightarrow> ((i::nat) = B * y + u) = (y = i div B \<and> u = i mod B)"
proof
  assume "u < B" "i = B * y + u"
  then show "y = i div B \<and> u = i mod B" using idx_div [of u B y] idx_mod [of u B y] by simp
next
  assume "y = i div B \<and> u = i mod B"
  then show "i = B * y + u" by simp
qed

lemma view_update:
  assumes "0 < B" "i < length xs"
  shows "view B (xs[i := v]) = put (view B xs) (i div B) (i mod B) v"
proof (intro ext)
  fix y u
  show "view B (xs[i := v]) y u = put (view B xs) (i div B) (i mod B) v y u"
  proof (cases "u < B")
    case True
    with assms idx_split [OF assms(1) True, of i y] show ?thesis
      by (auto simp: view_def put_apply nth_list_update)
  next
    case False
    with assms show ?thesis by (auto simp: view_def put_apply)
  qed
qed

lemma view_nth: "0 < B \<Longrightarrow> xs ! i = view B xs (i div B) (i mod B)"
  by (simp add: view_def)

lemma getA_ok: "i < length (A s) \<Longrightarrow> getA s i = Some (A s ! i)"
  by (simp add: getA_def vec_get_def)

lemma setA_ok: "i < length (A s) \<Longrightarrow> setA s i v = Some (s\<lparr>A := (A s)[i := v]\<rparr>)"
  by (simp add: setA_def vec_set_def)

lemma getA_view:
  "shape B s \<Longrightarrow> 0 < B \<Longrightarrow> i < N s \<Longrightarrow> getA s i = Some (view B (A s) (i div B) (i mod B))"
  by (simp add: shape_def getA_ok view_nth [symmetric])

lemma setA_view:
  assumes "shape B s" "0 < B" "i < N s"
  shows "\<exists>s'. setA s i v = Some s' \<and> ref_to B s s' (put (view B (A s)) (i div B) (i mod B) v) (b s)
           \<and> ctr s' = ctr s"
  using assms
  by (simp add: shape_def setA_ok ref_to_def same_frame_def view_update)

lemma first_of3 [simp]: "first_of3 x = 2 * x"
  by (simp add: first_of3_def)

lemma block_of3 [simp]: "block_of3 i = i div 2"
  by (simp add: block_of3_def drop_bit_eq_div)

lemma nat_and_1: "(i::nat) AND 1 = i mod 2"
  by (simp add: and_one_eq)

lemma int_and_1: "(i::int) AND 1 = i mod 2"
  by (simp add: and_one_eq)

lemma chainedTo_block3_ref:
  assumes s: "shape 2 s" and bi: "bi < N_blocks s"
  shows "chainedTo_block3 s bi =
         Some (partner_code (g_chained 2 (N_blocks s) (view 2 (A s)) (b s) bi))"
proof -
  let ?k0 = "A s ! (2 * bi)"
  have len: "length (A s) = 2 * N_blocks s" "N s = 2 * N_blocks s"
    using s by (simp_all add: shape_def)
  have v0: "view 2 (A s) bi 0 = ?k0" by (simp add: view_def)
  show ?thesis
  proof (cases "dec 2 (N_blocks s) ?k0")
    case None
    then have "?k0 mod 2 \<noteq> 0 \<or> ?k0 < 0 \<or> nat ?k0 \<ge> N s"
      using len by (auto simp: dec_def split: if_splits)
    then show ?thesis using None len bi
      by (auto simp: chainedTo_block3_def getA_ok int_and_1 g_chained_def v0 partner_code_def)
  next
    case (Some k)
    then have k: "?k0 = int (2 * k)" "k < N_blocks s" by (simp_all add: dec_Some_iff enc_def)
    then have nk: "nat ?k0 = 2 * k" "?k0 mod 2 = 0" "\<not> ?k0 < 0" by simp_all
    have vk: "view 2 (A s) k 0 = A s ! (2 * k)" by (simp add: view_def)
    have e: "enc 2 bi = int (2 * bi)" by (simp add: enc_def)
    show ?thesis using Some len bi k(2)
      by (simp add: chainedTo_block3_def getA_ok int_and_1 g_chained_def v0 vk partner_code_def
          nk drop_bit_eq_div cross_def e Let_def del: of_nat_mult)
  qed
qed

lemma ref_to_refl: "ref_to B s s (view B (A s)) (b s)"
  by (simp add: ref_to_def same_frame_refl)

lemma ref_to_trans:
  "ref_to B s s1 c1 bd1 \<Longrightarrow> ref_to B s1 s2 c2 bd2 \<Longrightarrow> ref_to B s s2 c2 bd2"
  by (auto simp: ref_to_def intro: same_frame_trans)

lemma ref_to_shape: "shape B s \<Longrightarrow> ref_to B s s' c' bd' \<Longrightarrow> shape B s'"
  by (auto simp: ref_to_def intro: shape_frame)

lemma ref_to_fields:
  "ref_to B s s' c' bd' \<Longrightarrow>
     N s' = N s \<and> N_blocks s' = N_blocks s \<and> initv s' = initv s \<and> b s' = bd' \<and>
     view B (A s') = c'"
  by (simp add: ref_to_def same_frame_def)

lemma ref_to_inc_conversions:
  "ref_to B s s' c' bd' \<Longrightarrow> ref_to B s (inc_conversions s') c' bd'"
  by (simp add: ref_to_def same_frame_def inc_conversions_def)

lemma ref_to_inc_relocations:
  "ref_to B s s' c' bd' \<Longrightarrow> ref_to B s (inc_relocations s') c' bd'"
  by (simp add: ref_to_def same_frame_def inc_relocations_def)

lemma setA_block:
  assumes "shape B s" "x < N_blocks s" "t < B"
  shows "\<exists>s'. setA s (B * x + t) v = Some s' \<and> ref_to B s s' (put (view B (A s)) x t v) (b s) \<and>
           ctr s' = ctr s"
proof -
  have "B * x + t < B * N_blocks s"
  proof -
    have "B * x + t < B * x + B" using assms(3) by simp
    also have "\<dots> = B * Suc x" by simp
    also have "\<dots> \<le> B * N_blocks s" using assms(2) by (simp only: mult_le_mono2 Suc_leI)
    finally show ?thesis .
  qed
  then have "B * x + t < N s" using assms(1) by (simp add: shape_def)
  moreover have "0 < B" using assms(3) by simp
  ultimately show ?thesis
    using setA_view [OF assms(1), of "B * x + t" v] assms(3) by simp
qed

lemma getA_block:
  assumes "shape B s" "x < N_blocks s" "t < B"
  shows "getA s (B * x + t) = Some (view B (A s) x t)"
proof -
  have "B * x + t < B * x + B" using assms(3) by simp
  also have "\<dots> = B * Suc x" by simp
  also have "\<dots> \<le> B * N_blocks s" using assms(2) by (simp only: mult_le_mono2 Suc_leI)
  finally have "B * x + t < length (A s)" using assms(1) by (simp add: shape_def)
  then show ?thesis using assms(3) by (simp add: getA_ok view_def)
qed

lemmas setA3_0 = setA_block [where B = 2 and t = 0, simplified]
lemmas setA3_1 = setA_block [where B = 2 and t = 1, simplified]
lemmas getA3_0 = getA_block [where B = 2 and t = 0, simplified]
lemmas getA3_1 = getA_block [where B = 2 and t = 1, simplified]

lemma partner_code_neg: "partner_code r < 0 \<longleftrightarrow> r = None"
  by (simp add: partner_code_def split: option.splits)

lemma partner_code_nonneg: "0 \<le> partner_code r \<longleftrightarrow> r \<noteq> None"
  by (simp add: partner_code_def split: option.splits)

lemma partner_code_Some: "nat (partner_code (Some k)) = k"
  by (simp add: partner_code_def)

lemma breakChain3_ref:
  assumes s: "shape 2 s" and bi: "bi < N_blocks s"
  shows "\<exists>s'. breakChain3 s bi = Some s' \<and>
           ref_to 2 s s' (g_break 2 (N_blocks s) (view 2 (A s)) (b s) bi) (b s) \<and>
           relocations (ctr s') = relocations (ctr s)"
proof (cases "g_chained 2 (N_blocks s) (view 2 (A s)) (b s) bi")
  case None
  then show ?thesis using s bi
    by (simp add: breakChain3_def chainedTo_block3_ref partner_code_def g_break_def ref_to_refl)
next
  case (Some k)
  then have k: "k < N_blocks s" by (simp add: g_chained_iff)
  from setA3_0 [OF s k, of "int (2 * k)"]
  obtain s1 where s1: "setA s (2 * k) (int (2 * k)) = Some s1"
    "ref_to 2 s s1 (put (view 2 (A s)) k 0 (int (2 * k))) (b s)" "ctr s1 = ctr s"
    by auto
  show ?thesis using s bi Some s1 ref_to_inc_conversions [OF s1(2)]
    by (simp add: breakChain3_def chainedTo_block3_ref partner_code_def g_break_def enc_def
        inc_conversions_def)
qed

subsection \<open>InPlaceArraySec3\<close>

lemma g_init_2: "g_init 2 c iv x = put (put c x 0 iv) x 1 iv"
proof (intro ext)
  fix z w
  have "w < 2 \<longleftrightarrow> w = 0 \<or> w = (1::nat)" by auto
  then show "g_init 2 c iv x z w = put (put c x 0 iv) x 1 iv z w"
    by (auto simp: g_init_def put_apply)
qed

lemma g_copy_2: "g_copy 2 c s k = put c s 0 (c k 1)"
  by (intro ext) (auto simp: g_copy_def put_apply)

lemma g_sync_False: "g_sync False nb c bd iv = c"
  by (simp add: g_sync_def)

lemma makeChain3_ref:
  assumes s: "shape 2 s" and bi: "bi < N_blocks s" and bj: "bj < N_blocks s"
  shows "\<exists>s'. makeChain3 s bi bj = Some s' \<and>
           ref_to 2 s s' (g_make 2 (view 2 (A s)) bi bj) (b s)"
proof -
  from setA3_0 [OF s bi, of "int (2 * bj)"]
  obtain s1 where s1: "setA s (2 * bi) (int (2 * bj)) = Some s1"
    "ref_to 2 s s1 (put (view 2 (A s)) bi 0 (int (2 * bj))) (b s)" by auto
  have sh1: "shape 2 s1" using ref_to_shape [OF s s1(2)] .
  have f1: "N_blocks s1 = N_blocks s" "b s1 = b s"
    "view 2 (A s1) = put (view 2 (A s)) bi 0 (int (2 * bj))"
    using ref_to_fields [OF s1(2)] by simp_all
  from setA3_0 [OF sh1, of bj "int (2 * bi)"] bj f1
  obtain s2 where s2: "setA s1 (2 * bj) (int (2 * bi)) = Some s2"
    "ref_to 2 s1 s2 (put (put (view 2 (A s)) bi 0 (int (2 * bj))) bj 0 (int (2 * bi))) (b s)"
    by auto
  have "ref_to 2 s (inc_conversions s2) (g_make 2 (view 2 (A s)) bi bj) (b s)"
    using ref_to_inc_conversions [OF ref_to_trans [OF s1(2) s2(2)]]
    by (simp add: g_make_def enc_def)
  then show ?thesis using s1(1) s2(1) by (simp add: makeChain3_def)
qed

lemma initBlock3_ref:
  assumes s: "shape 2 s" and bi: "bi < N_blocks s"
  shows "\<exists>s'. initBlock3 s bi = Some s' \<and>
           ref_to 2 s s' (g_init 2 (view 2 (A s)) (initv s) bi) (b s) \<and> ctr s' = ctr s"
proof -
  from setA3_0 [OF s bi, of "initv s"]
  obtain s1 where s1: "setA s (2 * bi) (initv s) = Some s1"
    "ref_to 2 s s1 (put (view 2 (A s)) bi 0 (initv s)) (b s)" "ctr s1 = ctr s" by auto
  have sh1: "shape 2 s1" using ref_to_shape [OF s s1(2)] .
  have f1: "N_blocks s1 = N_blocks s" "b s1 = b s" "initv s1 = initv s"
    "view 2 (A s1) = put (view 2 (A s)) bi 0 (initv s)"
    using ref_to_fields [OF s1(2)] by simp_all
  from setA3_1 [OF sh1, of bi "initv s"] bi f1
  obtain s2 where s2: "setA s1 (Suc (2 * bi)) (initv s) = Some s2"
    "ref_to 2 s1 s2 (put (put (view 2 (A s)) bi 0 (initv s)) bi 1 (initv s)) (b s)"
    "ctr s2 = ctr s1"
    by auto
  have "ref_to 2 s s2 (g_init 2 (view 2 (A s)) (initv s) bi) (b s)"
    using ref_to_trans [OF s1(2) s2(2)] by (simp add: g_init_2)
  then show ?thesis using s1(1,3) s2(1,3) f1 by (simp add: initBlock3_def)
qed

lemma extend3_ref:
  assumes s: "shape 2 s" and bd: "b s < N_blocks s"
  shows "\<exists>s'. extend3 s =
             Some (s', snd (g_extend 2 (N_blocks s) False (view 2 (A s)) (b s) (initv s))) \<and>
           ref_to 2 s s'
             (fst (g_extend 2 (N_blocks s) False (view 2 (A s)) (b s) (initv s))) (Suc (b s)) \<and>
           relocations (ctr s') = relocations (ctr s) +
             (if g_chained 2 (N_blocks s) (view 2 (A s)) (b s) (b s) = None then 0 else 1)"
proof -
  let ?nb = "N_blocks s" and ?c = "view 2 (A s)" and ?bd = "b s" and ?iv = "initv s"
  let ?s1 = "s\<lparr>b := b s + 1\<rparr>"
  have sh1: "shape 2 ?s1" using s by (simp add: shape_def)
  have r1: "ref_to 2 s ?s1 ?c (Suc ?bd)" by (simp add: ref_to_def same_frame_def)
  show ?thesis
  proof (cases "g_chained 2 ?nb ?c ?bd ?bd")
    case None
    from initBlock3_ref [OF sh1, of ?bd] bd
    obtain s2 where s2: "initBlock3 ?s1 ?bd = Some s2"
      "ref_to 2 ?s1 s2 (g_init 2 ?c ?iv ?bd) (Suc ?bd)" "ctr s2 = ctr s" by auto
    have sh2: "shape 2 s2" using ref_to_shape [OF sh1 s2(2)] .
    have f2: "N_blocks s2 = ?nb" "b s2 = Suc ?bd" "view 2 (A s2) = g_init 2 ?c ?iv ?bd"
      using ref_to_fields [OF s2(2)] by simp_all
    from breakChain3_ref [OF sh2, of ?bd] bd f2
    obtain s3 where s3: "breakChain3 s2 ?bd = Some s3"
      "ref_to 2 s2 s3 (g_break 2 ?nb (g_init 2 ?c ?iv ?bd) (Suc ?bd) ?bd) (Suc ?bd)"
      "relocations (ctr s3) = relocations (ctr s2)" by auto
    have "ref_to 2 s s3 (g_break 2 ?nb (g_init 2 ?c ?iv ?bd) (Suc ?bd) ?bd) (Suc ?bd)"
      using ref_to_trans [OF r1 ref_to_trans [OF s2(2) s3(2)]] .
    then show ?thesis using None s bd s2(1,3) s3(1,3)
      by (simp add: extend3_def chainedTo_block3_ref partner_code_def g_extend_def g_sync_False)
  next
    case (Some k)
    then have k: "k < ?nb" by (simp add: g_chained_iff)
    have g1: "getA ?s1 (Suc (2 * k)) = Some (?c k 1)" using getA3_1 [OF sh1, of k] k by simp
    from setA3_0 [OF sh1, of ?bd "?c k 1"] bd
    obtain s2 where s2: "setA ?s1 (2 * ?bd) (?c k 1) = Some s2"
      "ref_to 2 ?s1 s2 (g_copy 2 ?c ?bd k) (Suc ?bd)" "ctr s2 = ctr s"
      by (auto simp: g_copy_2)
    have sh2: "shape 2 s2" using ref_to_shape [OF sh1 s2(2)] .
    have f2: "N_blocks s2 = ?nb" "b s2 = Suc ?bd" "view 2 (A s2) = g_copy 2 ?c ?bd k"
      "initv s2 = ?iv"
      using ref_to_fields [OF s2(2)] by simp_all
    let ?c3 = "g_break 2 ?nb (g_copy 2 ?c ?bd k) (Suc ?bd) ?bd"
    from breakChain3_ref [OF sh2, of ?bd] bd f2
    obtain s3 where s3: "breakChain3 s2 ?bd = Some s3" "ref_to 2 s2 s3 ?c3 (Suc ?bd)"
      "relocations (ctr s3) = relocations (ctr s2)" by auto
    have sh3: "shape 2 s3" using ref_to_shape [OF sh2 s3(2)] .
    have f3: "N_blocks s3 = ?nb" "b s3 = Suc ?bd" "view 2 (A s3) = ?c3" "initv s3 = ?iv"
      using ref_to_fields [OF s3(2)] f2 by simp_all
    let ?c4 = "g_init 2 ?c3 ?iv k"
    from initBlock3_ref [OF sh3, of k] k f3
    obtain s4 where s4: "initBlock3 s3 k = Some s4" "ref_to 2 s3 s4 ?c4 (Suc ?bd)"
      "ctr s4 = ctr s3" by auto
    have sh4: "shape 2 s4" using ref_to_shape [OF sh3 s4(2)] .
    have f4: "N_blocks s4 = ?nb" "b s4 = Suc ?bd" "view 2 (A s4) = ?c4"
      using ref_to_fields [OF s4(2)] f3 by simp_all
    let ?c5 = "g_break 2 ?nb ?c4 (Suc ?bd) k"
    from breakChain3_ref [OF sh4, of k] k f4
    obtain s5 where s5: "breakChain3 s4 k = Some s5" "ref_to 2 s4 s5 ?c5 (Suc ?bd)"
      "relocations (ctr s5) = relocations (ctr s4)" by auto
    have "ref_to 2 s (inc_relocations s5) ?c5 (Suc ?bd)"
      using ref_to_inc_relocations
        [OF ref_to_trans [OF r1 ref_to_trans [OF s2(2) ref_to_trans [OF s3(2)
          ref_to_trans [OF s4(2) s5(2)]]]]] .
    moreover have "relocations (ctr (inc_relocations s5)) = relocations (ctr s) + 1"
      using s2(3) s3(3) s4(3) s5(3) by (simp add: inc_relocations_def)
    ultimately show ?thesis using Some s bd g1 s2(1) s3(1) s4(1) s5(1)
      by (simp add: extend3_def chainedTo_block3_ref partner_code_def g_extend_def g_sync_False)
  qed
qed

lemma view_beyond: "B \<le> w \<Longrightarrow> view B xs z w = 0"
  by (simp add: view_def)

lemma swapA_block:
  assumes s: "shape B s" and x: "x < N_blocks s" and y: "y < N_blocks s" and t: "t < B"
  shows "\<exists>s'. swapA s (B * x + t) (B * y + t) = Some s' \<and>
           ref_to B s s'
             (put (put (view B (A s)) x t (view B (A s) y t)) y t (view B (A s) x t)) (b s) \<and>
           ctr s' = ctr s"
proof -
  from setA_block [OF s x t, of "view B (A s) y t"]
  obtain s1 where s1: "setA s (B * x + t) (view B (A s) y t) = Some s1"
    "ref_to B s s1 (put (view B (A s)) x t (view B (A s) y t)) (b s)" "ctr s1 = ctr s" by auto
  have sh1: "shape B s1" using ref_to_shape [OF s s1(2)] .
  have f1: "N_blocks s1 = N_blocks s" "b s1 = b s"
    "view B (A s1) = put (view B (A s)) x t (view B (A s) y t)"
    using ref_to_fields [OF s1(2)] by simp_all
  from setA_block [OF sh1 _ t, of y "view B (A s) x t"] y f1
  obtain s2 where s2: "setA s1 (B * y + t) (view B (A s) x t) = Some s2"
    "ref_to B s1 s2 (put (put (view B (A s)) x t (view B (A s) y t)) y t (view B (A s) x t)) (b s)"
    "ctr s2 = ctr s1" by auto
  show ?thesis
    using getA_block [OF s x t] getA_block [OF s y t] s1(1,3) s2(1,3)
      ref_to_trans [OF s1(2) s2(2)]
    by (simp add: swapA_def)
qed

lemmas swapA3_0 = swapA_block [where B = 2 and t = 0, simplified]
lemmas swapA3_1 = swapA_block [where B = 2 and t = 1, simplified]

lemma swap2_view:
  assumes "r \<noteq> x" "c = view 2 xs"
  shows "put (put (put (put c r 0 (c x 0)) x 0 (c r 0)) r 1 (c x 1)) x 1 (c r 1) = g_swap c r x"
proof (intro ext)
  fix z w
  have "w = 0 \<or> w = 1 \<or> (2::nat) \<le> w" by auto
  then show "put (put (put (put c r 0 (c x 0)) x 0 (c r 0)) r 1 (c x 1)) x 1 (c r 1) z w =
        g_swap c r x z w"
    using assms by (auto simp: put_apply g_swap_def view_beyond)
qed

lemma g_through_2:
  "t < 2 \<Longrightarrow> g_through 2 c k x t v = (if t = 0 then put c k 1 v else put c x 1 v)"
proof -
  assume "t < 2"
  then have "t = 0 \<or> t = 1" by auto
  then show ?thesis by (auto simp: g_through_def)
qed

lemma read_impl3_ref:
  assumes s: "shape 2 s" and i: "i < N s"
  shows "read_impl3 s i =
         Some (g_read 2 (N_blocks s) (view 2 (A s)) (b s) (initv s) (i div 2) (i mod 2))"
proof -
  have bi: "i div 2 < N_blocks s" using s i by (simp add: shape_def)
  have lt: "i < 2 * b s \<longleftrightarrow> i div 2 < b s" by auto
  have gi: "getA s i = Some (view 2 (A s) (i div 2) (i mod 2))"
    using getA_view [OF s _ i] by simp
  show ?thesis
  proof (cases "g_chained 2 (N_blocks s) (view 2 (A s)) (b s) (i div 2)")
    case None
    then show ?thesis using s bi gi
      by (simp add: read_impl3_def chainedTo_block3_ref partner_code_def g_read_def lt)
  next
    case (Some k)
    then have k: "k < N_blocks s" by (simp add: g_chained_iff)
    have gk: "getA s (Suc (2 * k)) = Some (view 2 (A s) k 1)" using getA3_1 [OF s k] by simp
    have "i mod 2 = 0 \<or> i mod 2 = 1" by auto
    then show ?thesis using Some s bi gi gk
      by (auto simp: read_impl3_def chainedTo_block3_ref partner_code_def g_read_def lt nat_and_1)
  qed
qed

lemma set_break3:
  assumes s: "shape 2 s" and i: "i < N s"
  shows "\<exists>s'. (setA s i v \<bind> (\<lambda>s1. breakChain3 s1 (i div 2))) = Some s' \<and>
           ref_to 2 s s'
             (g_break 2 (N_blocks s) (put (view 2 (A s)) (i div 2) (i mod 2) v) (b s) (i div 2))
             (b s)"
proof -
  have bi: "i div 2 < N_blocks s" using s i by (simp add: shape_def)
  from setA_view [OF s _ i, of v]
  obtain s1 where s1: "setA s i v = Some s1"
    "ref_to 2 s s1 (put (view 2 (A s)) (i div 2) (i mod 2) v) (b s)" by auto
  have sh1: "shape 2 s1" using ref_to_shape [OF s s1(2)] .
  have f1: "N_blocks s1 = N_blocks s" "b s1 = b s"
    "view 2 (A s1) = put (view 2 (A s)) (i div 2) (i mod 2) v"
    using ref_to_fields [OF s1(2)] by simp_all
  from breakChain3_ref [OF sh1, of "i div 2"] bi f1
  obtain s2 where s2: "breakChain3 s1 (i div 2) = Some s2"
    "ref_to 2 s1 s2
       (g_break 2 (N_blocks s) (put (view 2 (A s)) (i div 2) (i mod 2) v) (b s) (i div 2)) (b s)"
    by auto
  show ?thesis using s1(1) s2(1) ref_to_trans [OF s1(2) s2(2)] by simp
qed

lemma through3:
  assumes s: "shape 2 s" and i: "i < N s" and k: "k < N_blocks s"
  shows "\<exists>s'. (if i AND 1 = 0 then setA s (first_of3 k + 1) v else setA s i v) = Some s' \<and>
           ref_to 2 s s' (g_through 2 (view 2 (A s)) k (i div 2) (i mod 2) v) (b s)"
proof (cases "i mod 2 = 0")
  case True
  with setA3_1 [OF s k, of v] show ?thesis by (auto simp: nat_and_1 g_through_2)
next
  case False
  then have "i mod 2 = 1" by auto
  with setA_view [OF s _ i, of v] show ?thesis by (auto simp: nat_and_1 g_through_2)
qed

lemma write_impl3_ref:
  assumes s: "shape 2 s" and bd: "b s \<le> N_blocks s" and i: "i < N s"
  shows "\<exists>s'. write_impl3 s i v = Some s' \<and>
           ref_to 2 s s'
             (fst (g_write 2 (N_blocks s) False (view 2 (A s)) (b s) (initv s) (i div 2) (i mod 2) v))
             (snd (g_write 2 (N_blocks s) False (view 2 (A s)) (b s) (initv s) (i div 2) (i mod 2) v))"
proof -
  let ?nb = "N_blocks s" and ?c = "view 2 (A s)" and ?bd = "b s" and ?iv = "initv s"
  let ?x = "i div 2" and ?t = "i mod 2"
  let ?e = "g_extend 2 ?nb False ?c ?bd ?iv"
  have x: "?x < ?nb" using s i by (simp add: shape_def)
  have chain: "chainedTo_block3 s ?x = Some (partner_code (g_chained 2 ?nb ?c ?bd ?x))"
    using chainedTo_block3_ref [OF s x] .
  have ext: "\<exists>s1. extend3 s = Some (s1, snd ?e) \<and> ref_to 2 s s1 (fst ?e) (Suc ?bd) \<and>
      snd ?e < ?nb" if "?bd < ?nb"
  proof -
    have "extend_post 2 ?nb ?c ?bd ?iv (fst ?e) (snd ?e)"
      using g_extend_post [of 2 False ?bd ?nb ?c ?iv] that by simp
    then have "snd ?e \<le> ?bd" by (simp add: extend_post_def)
    with extend3_ref [OF s that] that show ?thesis by auto
  qed
  show ?thesis
  proof (cases "g_chained 2 ?nb ?c ?bd ?x")
    case None
    show ?thesis
    proof (cases "?x < ?bd")
      case True
      with None chain set_break3 [OF s i, of v] show ?thesis
        by (simp add: write_impl3_def partner_code_def g_write_def)
    next
      case False
      then have b: "?bd < ?nb" using x by simp
      from ext [OF b] obtain s1 where s1: "extend3 s = Some (s1, snd ?e)"
        "ref_to 2 s s1 (fst ?e) (Suc ?bd)" "snd ?e < ?nb" by auto
      have sh1: "shape 2 s1" using ref_to_shape [OF s s1(2)] .
      have f1: "N_blocks s1 = ?nb" "b s1 = Suc ?bd" "view 2 (A s1) = fst ?e" "initv s1 = ?iv"
        "N s1 = N s"
        using ref_to_fields [OF s1(2)] by simp_all
      show ?thesis
      proof (cases "snd ?e = ?x")
        case True
        from set_break3 [OF sh1, of i v] i f1
        obtain s2 where "(setA s1 i v \<bind> (\<lambda>s. breakChain3 s ?x)) = Some s2"
          "ref_to 2 s1 s2 (g_break 2 ?nb (put (fst ?e) ?x ?t v) (Suc ?bd) ?x) (Suc ?bd)" by auto
        with None False True chain s1(1) ref_to_trans [OF s1(2)] show ?thesis
          by (auto simp: write_impl3_def partner_code_def g_write_def split_beta)
      next
        case ne: False
        from initBlock3_ref [OF sh1, of ?x] x f1
        obtain s2 where s2: "initBlock3 s1 ?x = Some s2"
          "ref_to 2 s1 s2 (g_init 2 (fst ?e) ?iv ?x) (Suc ?bd)" by auto
        have sh2: "shape 2 s2" using ref_to_shape [OF sh1 s2(2)] .
        have f2: "N_blocks s2 = ?nb" "b s2 = Suc ?bd" "view 2 (A s2) = g_init 2 (fst ?e) ?iv ?x"
          "N s2 = N s"
          using ref_to_fields [OF s2(2)] f1 by simp_all
        from makeChain3_ref [OF sh2, of "snd ?e" ?x] x s1(3) f2
        obtain s3 where s3: "makeChain3 s2 (snd ?e) ?x = Some s3"
          "ref_to 2 s2 s3 (g_make 2 (g_init 2 (fst ?e) ?iv ?x) (snd ?e) ?x) (Suc ?bd)" by auto
        have sh3: "shape 2 s3" using ref_to_shape [OF sh2 s3(2)] .
        have f3: "N_blocks s3 = ?nb" "b s3 = Suc ?bd"
          "view 2 (A s3) = g_make 2 (g_init 2 (fst ?e) ?iv ?x) (snd ?e) ?x" "N s3 = N s"
          using ref_to_fields [OF s3(2)] f2 by simp_all
        from through3 [OF sh3, of i "snd ?e" v] i s1(3) f3
        obtain s4 where s4:
          "(if i AND 1 = 0 then setA s3 (first_of3 (snd ?e) + 1) v else setA s3 i v) = Some s4"
          "ref_to 2 s3 s4
             (g_through 2 (g_make 2 (g_init 2 (fst ?e) ?iv ?x) (snd ?e) ?x) (snd ?e) ?x ?t v)
             (Suc ?bd)" by auto
        have "ref_to 2 s s4
             (g_through 2 (g_make 2 (g_init 2 (fst ?e) ?iv ?x) (snd ?e) ?x) (snd ?e) ?x ?t v)
             (Suc ?bd)"
          using ref_to_trans [OF s1(2) ref_to_trans [OF s2(2) ref_to_trans [OF s3(2) s4(2)]]] .
        with None False ne chain s1(1) s2(1) s3(1) s4(1) show ?thesis
          by (auto simp: write_impl3_def partner_code_def g_write_def split_beta)
      qed
    qed
  next
    case (Some k)
    then have k: "k < ?nb" by (simp add: g_chained_iff)
    show ?thesis
    proof (cases "?x < ?bd")
      case True
      have "?bd \<le> k" using Some True by (auto simp: g_chained_iff cross_def)
      then have b: "?bd < ?nb" using k by simp
      from ext [OF b] obtain s1 where s1: "extend3 s = Some (s1, snd ?e)"
        "ref_to 2 s s1 (fst ?e) (Suc ?bd)" "snd ?e < ?nb" by auto
      have sh1: "shape 2 s1" using ref_to_shape [OF s s1(2)] .
      have f1: "N_blocks s1 = ?nb" "b s1 = Suc ?bd" "view 2 (A s1) = fst ?e" "initv s1 = ?iv"
        "N s1 = N s"
        using ref_to_fields [OF s1(2)] by simp_all
      show ?thesis
      proof (cases "snd ?e = ?x")
        case eq: True
        from set_break3 [OF sh1, of i v] i f1
        obtain s2 where "(setA s1 i v \<bind> (\<lambda>s. breakChain3 s ?x)) = Some s2"
          "ref_to 2 s1 s2 (g_break 2 ?nb (put (fst ?e) ?x ?t v) (Suc ?bd) ?x) (Suc ?bd)" by auto
        with Some True eq chain s1(1) ref_to_trans [OF s1(2)] show ?thesis
          by (auto simp: write_impl3_def partner_code_def g_write_def split_beta)
      next
        case ne: False
        let ?r = "snd ?e" and ?c1 = "fst ?e"
        from swapA3_0 [OF sh1, of ?r ?x] x s1(3) f1
        obtain s2 where s2: "swapA s1 (2 * ?r) (2 * ?x) = Some s2"
          "ref_to 2 s1 s2 (put (put ?c1 ?r 0 (?c1 ?x 0)) ?x 0 (?c1 ?r 0)) (Suc ?bd)" by auto
        have sh2: "shape 2 s2" using ref_to_shape [OF sh1 s2(2)] .
        have f2: "N_blocks s2 = ?nb" "b s2 = Suc ?bd"
          "view 2 (A s2) = put (put ?c1 ?r 0 (?c1 ?x 0)) ?x 0 (?c1 ?r 0)" "initv s2 = ?iv"
          using ref_to_fields [OF s2(2)] f1 by simp_all
        from swapA3_1 [OF sh2, of ?r ?x] x s1(3) f2
        obtain s3 where s3: "swapA s2 (Suc (2 * ?r)) (Suc (2 * ?x)) = Some s3"
          "ref_to 2 s2 s3 (g_swap ?c1 ?r ?x) (Suc ?bd)"
          using swap2_view [OF ne f1(3) [symmetric]] by (auto simp: put_apply)
        have r3: "ref_to 2 s2 (inc_relocations s3) (g_swap ?c1 ?r ?x) (Suc ?bd)"
          using ref_to_inc_relocations [OF s3(2)] .
        let ?s4 = "inc_relocations s3"
        have sh4: "shape 2 ?s4" using ref_to_shape [OF sh2 r3] .
        have f4: "N_blocks ?s4 = ?nb" "b ?s4 = Suc ?bd" "view 2 (A ?s4) = g_swap ?c1 ?r ?x"
          "initv ?s4 = ?iv"
          using ref_to_fields [OF r3] f2 by simp_all
        let ?c5 = "g_make 2 (g_swap ?c1 ?r ?x) ?r k"
        from makeChain3_ref [OF sh4, of ?r k] k s1(3) f4
        obtain s5 where s5: "makeChain3 ?s4 ?r k = Some s5" "ref_to 2 ?s4 s5 ?c5 (Suc ?bd)"
          by auto
        have sh5: "shape 2 s5" using ref_to_shape [OF sh4 s5(2)] .
        have f5: "N_blocks s5 = ?nb" "b s5 = Suc ?bd" "view 2 (A s5) = ?c5" "initv s5 = ?iv"
          using ref_to_fields [OF s5(2)] f4 by simp_all
        from initBlock3_ref [OF sh5, of ?x] x f5
        obtain s6 where s6: "initBlock3 s5 ?x = Some s6"
          "ref_to 2 s5 s6 (g_init 2 ?c5 ?iv ?x) (Suc ?bd)" by auto
        have sh6: "shape 2 s6" using ref_to_shape [OF sh5 s6(2)] .
        have f6: "N_blocks s6 = ?nb" "b s6 = Suc ?bd" "view 2 (A s6) = g_init 2 ?c5 ?iv ?x"
          "N s6 = N s"
          using ref_to_fields [OF s6(2)] ref_to_fields [OF s5(2)] ref_to_fields [OF r3]
            ref_to_fields [OF s2(2)] f1 by simp_all
        from set_break3 [OF sh6, of i v] i f6
        obtain s7 where s7: "(setA s6 i v \<bind> (\<lambda>s. breakChain3 s ?x)) = Some s7"
          "ref_to 2 s6 s7 (g_break 2 ?nb (put (g_init 2 ?c5 ?iv ?x) ?x ?t v) (Suc ?bd) ?x) (Suc ?bd)"
          by auto
        have "ref_to 2 s s7
            (g_break 2 ?nb (put (g_init 2 ?c5 ?iv ?x) ?x ?t v) (Suc ?bd) ?x) (Suc ?bd)"
          using ref_to_trans [OF s1(2) ref_to_trans [OF s2(2) ref_to_trans [OF r3
            ref_to_trans [OF s5(2) ref_to_trans [OF s6(2) s7(2)]]]]] .
        with Some True ne chain s1(1) s2(1) s3(1) s5(1) s6(1) s7(1) show ?thesis
          by (auto simp: write_impl3_def partner_code_def g_write_def split_beta)
      qed
    next
      case False
      from through3 [OF s i k, of v]
      obtain s1 where "(if i AND 1 = 0 then setA s (first_of3 k + 1) v else setA s i v) = Some s1"
        "ref_to 2 s s1 (g_through 2 ?c k ?x ?t v) ?bd" by auto
      with Some False chain show ?thesis
        by (auto simp: write_impl3_def partner_code_def g_write_def)
    qed
  qed
qed

subsection \<open>InPlaceArraySec4\<close>

lemma first_of4: "first_of4 x = 4 * x"
  by (simp add: first_of4_def push_bit_eq_mult)

lemma block_of4 [simp]: "block_of4 i = i div 4"
  by (simp add: block_of4_def drop_bit_eq_div)

lemma nat_and_3: "(i::nat) AND 3 = i mod 4"
proof -
  have "(3::nat) = mask 2" by (simp add: mask_eq_exp_minus_1)
  then show ?thesis using take_bit_eq_mask [of 2 i] take_bit_eq_mod [of 2 i] by simp
qed

lemma int_and_3: "(i::int) AND 3 = i mod 4"
proof -
  have "(3::int) = mask 2" by (simp add: mask_eq_exp_minus_1)
  then show ?thesis using take_bit_eq_mask [of 2 i] take_bit_eq_mod [of 2 i] by simp
qed

lemma setA4:
  fixes s :: InPlaceArraySec4
  assumes "shape 4 s" "i < N s"
  shows "\<exists>s'. setA s i v = Some s' \<and>
           ref_to 4 s s' (put (view 4 (A s)) (i div 4) (i mod 4) v) (b s) \<and>
           flag s' = flag s \<and> ctr s' = ctr s"
  using assms
  by (simp add: shape_def setA_ok ref_to_def same_frame_def view_update)

lemma setA4_blk:
  fixes s :: InPlaceArraySec4
  assumes "shape 4 s" "x < N_blocks s" "t < 4"
  shows "\<exists>s'. setA s (first_of4 x + t) v = Some s' \<and>
           ref_to 4 s s' (put (view 4 (A s)) x t v) (b s) \<and> flag s' = flag s \<and> ctr s' = ctr s"
proof -
  have "4 * x + t < N s" using assms by (simp add: shape_def)
  from setA4 [OF assms(1) this, of v] assms(3) show ?thesis by (simp add: first_of4)
qed

lemma getA4_blk:
  assumes "shape 4 s" "x < N_blocks s" "t < 4"
  shows "getA s (first_of4 x + t) = Some (view 4 (A s) x t)"
  using getA_block [OF assms] by (simp add: first_of4)

lemma swapA4_blk:
  fixes s :: InPlaceArraySec4
  assumes s: "shape 4 s" and x: "x < N_blocks s" and y: "y < N_blocks s" and t: "t < 4"
  shows "\<exists>s'. swapA s (first_of4 x + t) (first_of4 y + t) = Some s' \<and>
           ref_to 4 s s'
             (put (put (view 4 (A s)) x t (view 4 (A s) y t)) y t (view 4 (A s) x t)) (b s) \<and>
           flag s' = flag s"
proof -
  from setA4_blk [OF s x t, of "view 4 (A s) y t"]
  obtain s1 where s1: "setA s (first_of4 x + t) (view 4 (A s) y t) = Some s1"
    "ref_to 4 s s1 (put (view 4 (A s)) x t (view 4 (A s) y t)) (b s)" "flag s1 = flag s" by auto
  have sh1: "shape 4 s1" using ref_to_shape [OF s s1(2)] .
  have f1: "N_blocks s1 = N_blocks s" "b s1 = b s"
    "view 4 (A s1) = put (view 4 (A s)) x t (view 4 (A s) y t)"
    using ref_to_fields [OF s1(2)] by simp_all
  from setA4_blk [OF sh1 _ t, of y "view 4 (A s) x t"] y f1
  obtain s2 where s2: "setA s1 (first_of4 y + t) (view 4 (A s) x t) = Some s2"
    "ref_to 4 s1 s2 (put (put (view 4 (A s)) x t (view 4 (A s) y t)) y t (view 4 (A s) x t)) (b s)"
    "flag s2 = flag s1" by auto
  show ?thesis
    using getA4_blk [OF s x t] getA4_blk [OF s y t] s1(1,3) s2(1,3)
      ref_to_trans [OF s1(2) s2(2)]
    by (simp add: swapA_def)
qed

lemma chainedTo_block4_ref:
  assumes s: "shape 4 s" and bi: "bi < N_blocks s"
  shows "chainedTo_block4 s bi =
         Some (partner_code (g_chained 4 (N_blocks s) (view 4 (A s)) (b s) bi))"
proof -
  let ?k0 = "A s ! (4 * bi)"
  note first_of4 [simp]
  have len: "length (A s) = 4 * N_blocks s" "N s = 4 * N_blocks s"
    using s by (simp_all add: shape_def)
  have v0: "view 4 (A s) bi 0 = ?k0" by (simp add: view_def)
  show ?thesis
  proof (cases "dec 4 (N_blocks s) ?k0")
    case None
    then have "?k0 mod 4 \<noteq> 0 \<or> ?k0 < 0 \<or> nat ?k0 \<ge> N s"
      using len by (auto simp: dec_def split: if_splits)
    then show ?thesis using None len bi
      by (auto simp: chainedTo_block4_def getA_ok int_and_3 g_chained_def v0 partner_code_def)
  next
    case (Some k)
    then have k: "?k0 = int (4 * k)" "k < N_blocks s" by (simp_all add: dec_Some_iff enc_def)
    then have nk: "nat ?k0 = 4 * k" "?k0 mod 4 = 0" "\<not> ?k0 < 0" by simp_all
    have vk: "view 4 (A s) k 0 = A s ! (4 * k)" by (simp add: view_def)
    have e: "enc 4 bi = int (4 * bi)" by (simp add: enc_def)
    show ?thesis using Some len bi k(2)
      by (simp add: chainedTo_block4_def getA_ok int_and_3 g_chained_def v0 vk partner_code_def
          nk drop_bit_eq_div cross_def e Let_def del: of_nat_mult)
  qed
qed

lemma breakChain4_ref:
  assumes s: "shape 4 s" and bi: "bi < N_blocks s"
  shows "\<exists>s'. breakChain4 s bi = Some s' \<and>
           ref_to 4 s s' (g_break 4 (N_blocks s) (view 4 (A s)) (b s) bi) (b s) \<and>
           flag s' = flag s"
proof (cases "g_chained 4 (N_blocks s) (view 4 (A s)) (b s) bi")
  case None
  then show ?thesis using s bi
    by (simp add: breakChain4_def chainedTo_block4_ref partner_code_def g_break_def ref_to_refl)
next
  case (Some k)
  then have k: "k < N_blocks s" by (simp add: g_chained_iff)
  from setA4_blk [OF s k, of 0 "int (first_of4 k)"]
  obtain s1 where s1: "setA s (first_of4 k) (int (first_of4 k)) = Some s1"
    "ref_to 4 s s1 (put (view 4 (A s)) k 0 (int (first_of4 k))) (b s)" "flag s1 = flag s"
    by auto
  show ?thesis using s bi Some s1 ref_to_inc_conversions [OF s1(2)]
    by (simp add: breakChain4_def chainedTo_block4_ref partner_code_def g_break_def enc_def
        inc_conversions_def first_of4)
qed

lemma makeChain4_ref:
  assumes s: "shape 4 s" and bi: "bi < N_blocks s" and bj: "bj < N_blocks s"
  shows "\<exists>s'. makeChain4 s bi bj = Some s' \<and>
           ref_to 4 s s' (g_make 4 (view 4 (A s)) bi bj) (b s) \<and> flag s' = flag s"
proof -
  from setA4_blk [OF s bi, of 0 "int (first_of4 bj)"]
  obtain s1 where s1: "setA s (first_of4 bi) (int (first_of4 bj)) = Some s1"
    "ref_to 4 s s1 (put (view 4 (A s)) bi 0 (int (first_of4 bj))) (b s)" "flag s1 = flag s"
    by auto
  have sh1: "shape 4 s1" using ref_to_shape [OF s s1(2)] .
  have f1: "N_blocks s1 = N_blocks s" "b s1 = b s"
    "view 4 (A s1) = put (view 4 (A s)) bi 0 (int (first_of4 bj))"
    using ref_to_fields [OF s1(2)] by simp_all
  from setA4_blk [OF sh1, of bj 0 "int (first_of4 bi)"] bj f1
  obtain s2 where s2: "setA s1 (first_of4 bj) (int (first_of4 bi)) = Some s2"
    "ref_to 4 s1 s2
       (put (put (view 4 (A s)) bi 0 (int (first_of4 bj))) bj 0 (int (first_of4 bi))) (b s)"
    "flag s2 = flag s1"
    by auto
  have "ref_to 4 s (inc_conversions s2) (g_make 4 (view 4 (A s)) bi bj) (b s)"
    using ref_to_inc_conversions [OF ref_to_trans [OF s1(2) s2(2)]]
    by (simp add: g_make_def enc_def first_of4)
  then show ?thesis using s1(1,3) s2(1,3) by (simp add: makeChain4_def inc_conversions_def)
qed

lemma g_init_4: "g_init 4 c iv x = put (put (put (put c x 0 iv) x 1 iv) x 2 iv) x 3 iv"
proof (intro ext)
  fix z w
  have "w < 4 \<longleftrightarrow> w = 0 \<or> w = 1 \<or> w = 2 \<or> w = (3::nat)" by auto
  then show "g_init 4 c iv x z w = put (put (put (put c x 0 iv) x 1 iv) x 2 iv) x 3 iv z w"
    by (auto simp: g_init_def put_apply)
qed

lemma initBlock4_ref:
  assumes s: "shape 4 s" and bi: "bi < N_blocks s"
  shows "\<exists>s'. initBlock4 s bi = Some s' \<and>
           ref_to 4 s s' (g_init 4 (view 4 (A s)) (initv s) bi) (b s) \<and> flag s' = flag s \<and>
           ctr s' = ctr s"
proof -
  let ?c = "view 4 (A s)" and ?iv = "initv s"
  from setA4_blk [OF s bi, of 0 ?iv]
  obtain s1 where s1: "setA s (first_of4 bi) ?iv = Some s1"
    "ref_to 4 s s1 (put ?c bi 0 ?iv) (b s)" "flag s1 = flag s" "ctr s1 = ctr s" by auto
  have sh1: "shape 4 s1" using ref_to_shape [OF s s1(2)] .
  have f1: "N_blocks s1 = N_blocks s" "b s1 = b s" "initv s1 = ?iv"
    "view 4 (A s1) = put ?c bi 0 ?iv"
    using ref_to_fields [OF s1(2)] by simp_all
  from setA4_blk [OF sh1, of bi 1 ?iv] bi f1
  obtain s2 where s2: "setA s1 (first_of4 bi + 1) ?iv = Some s2"
    "ref_to 4 s1 s2 (put (put ?c bi 0 ?iv) bi 1 ?iv) (b s)" "flag s2 = flag s1" "ctr s2 = ctr s1"
    by auto
  have sh2: "shape 4 s2" using ref_to_shape [OF sh1 s2(2)] .
  have f2: "N_blocks s2 = N_blocks s" "b s2 = b s" "initv s2 = ?iv"
    "view 4 (A s2) = put (put ?c bi 0 ?iv) bi 1 ?iv"
    using ref_to_fields [OF s2(2)] f1 by simp_all
  from setA4_blk [OF sh2, of bi 2 ?iv] bi f2
  obtain s3 where s3: "setA s2 (first_of4 bi + 2) ?iv = Some s3"
    "ref_to 4 s2 s3 (put (put (put ?c bi 0 ?iv) bi 1 ?iv) bi 2 ?iv) (b s)" "flag s3 = flag s2"
    "ctr s3 = ctr s2"
    by auto
  have sh3: "shape 4 s3" using ref_to_shape [OF sh2 s3(2)] .
  have f3: "N_blocks s3 = N_blocks s" "b s3 = b s" "initv s3 = ?iv"
    "view 4 (A s3) = put (put (put ?c bi 0 ?iv) bi 1 ?iv) bi 2 ?iv"
    using ref_to_fields [OF s3(2)] f2 by simp_all
  from setA4_blk [OF sh3, of bi 3 ?iv] bi f3
  obtain s4 where s4: "setA s3 (first_of4 bi + 3) ?iv = Some s4"
    "ref_to 4 s3 s4 (put (put (put (put ?c bi 0 ?iv) bi 1 ?iv) bi 2 ?iv) bi 3 ?iv) (b s)"
    "flag s4 = flag s3" "ctr s4 = ctr s3"
    by auto
  have "ref_to 4 s s4 (g_init 4 ?c ?iv bi) (b s)"
    using ref_to_trans [OF s1(2) ref_to_trans [OF s2(2) ref_to_trans [OF s3(2) s4(2)]]]
    by (simp add: g_init_4)
  then show ?thesis using s1(1,3,4) s2(1,3,4) s3(1,3,4) s4(1,3,4) f1 f2 f3
    by (simp add: initBlock4_def)
qed

lemma sync_meta_to_A_ref:
  assumes s: "shape 4 s"
  shows "\<exists>s'. sync_meta_to_A s = Some s' \<and>
           ref_to 4 s s' (g_sync True (N_blocks s) (view 4 (A s)) (b s) (initv s)) (b s) \<and>
           flag s' = (N_blocks s \<le> b s) \<and> ctr s' = ctr s"
proof (cases "N_blocks s \<le> b s")
  case True
  then show ?thesis
    by (simp add: sync_meta_to_A_def sync_flag_def g_sync_def ref_to_def same_frame_def)
next
  case False
  let ?s0 = "sync_flag s" and ?mb = "N_blocks s - 1"
  have sh0: "shape 4 ?s0" using s by (simp add: shape_def sync_flag_def)
  have f0: "N_blocks ?s0 = N_blocks s" "b ?s0 = b s" "initv ?s0 = initv s" "A ?s0 = A s"
    "flag ?s0 = False" "ctr ?s0 = ctr s"
    using False by (simp_all add: sync_flag_def)
  have r0: "ref_to 4 s ?s0 (view 4 (A s)) (b s)"
    by (simp add: ref_to_def same_frame_def sync_flag_def)
  have mb: "?mb < N_blocks ?s0" using False f0 by simp
  from setA4_blk [OF sh0 mb, of 1 "initv s"] f0
  obtain s1 where s1: "setA ?s0 (first_of4 ?mb + 1) (initv s) = Some s1"
    "ref_to 4 ?s0 s1 (put (view 4 (A s)) ?mb 1 (initv s)) (b s)" "flag s1 = False"
    "ctr s1 = ctr s" by auto
  have sh1: "shape 4 s1" using ref_to_shape [OF sh0 s1(2)] .
  have f1: "N_blocks s1 = N_blocks s" "b s1 = b s"
    "view 4 (A s1) = put (view 4 (A s)) ?mb 1 (initv s)"
    using ref_to_fields [OF s1(2)] f0 by simp_all
  from setA4_blk [OF sh1, of ?mb 2 "int (b s)"] mb f0 f1
  obtain s2 where s2: "setA s1 (first_of4 ?mb + 2) (int (b s)) = Some s2"
    "ref_to 4 s1 s2 (put (put (view 4 (A s)) ?mb 1 (initv s)) ?mb 2 (int (b s))) (b s)"
    "flag s2 = flag s1" "ctr s2 = ctr s1" by auto
  have "ref_to 4 s s2 (g_sync True (N_blocks s) (view 4 (A s)) (b s) (initv s)) (b s)"
    using ref_to_trans [OF r0 ref_to_trans [OF s1(2) s2(2)]] False by (simp add: g_sync_def)
  then show ?thesis using False f0 f1 s1(1,3,4) s2(1,3,4)
    by (simp add: sync_meta_to_A_def Let_def)
qed

lemma g_copy_4: "g_copy 4 c s k = put (put (put c s 0 (c k 1)) s 1 (c k 2)) s 2 (c k 3)"
proof (intro ext)
  fix z w
  have "w = 0 \<or> w = 1 \<or> w = 2 \<or> (3::nat) \<le> w" by auto
  then show "g_copy 4 c s k z w = put (put (put c s 0 (c k 1)) s 1 (c k 2)) s 2 (c k 3) z w"
    by (auto simp: g_copy_def put_apply numeral_2_eq_2 numeral_3_eq_3)
qed

lemma extend4_ref:
  assumes s: "shape 4 s" and bd: "b s < N_blocks s"
  shows "\<exists>s'. extend4 s =
             Some (s', snd (g_extend 4 (N_blocks s) True (view 4 (A s)) (b s) (initv s))) \<and>
           ref_to 4 s s'
             (fst (g_extend 4 (N_blocks s) True (view 4 (A s)) (b s) (initv s))) (Suc (b s)) \<and>
           flag s' = (N_blocks s \<le> Suc (b s))"
proof -
  let ?nb = "N_blocks s" and ?c = "view 4 (A s)" and ?bd = "b s" and ?iv = "initv s"
  let ?s1 = "s\<lparr>b := b s + 1\<rparr>"
  have sh1: "shape 4 ?s1" using s by (simp add: shape_def)
  have r1: "ref_to 4 s ?s1 ?c (Suc ?bd)" by (simp add: ref_to_def same_frame_def)
  show ?thesis
  proof (cases "g_chained 4 ?nb ?c ?bd ?bd")
    case None
    from initBlock4_ref [OF sh1, of ?bd] bd
    obtain s2 where s2: "initBlock4 ?s1 ?bd = Some s2"
      "ref_to 4 ?s1 s2 (g_init 4 ?c ?iv ?bd) (Suc ?bd)" by auto
    have sh2: "shape 4 s2" using ref_to_shape [OF sh1 s2(2)] .
    have f2: "N_blocks s2 = ?nb" "b s2 = Suc ?bd" "view 4 (A s2) = g_init 4 ?c ?iv ?bd"
      "initv s2 = ?iv"
      using ref_to_fields [OF s2(2)] by simp_all
    let ?c3 = "g_break 4 ?nb (g_init 4 ?c ?iv ?bd) (Suc ?bd) ?bd"
    from breakChain4_ref [OF sh2, of ?bd] bd f2
    obtain s3 where s3: "breakChain4 s2 ?bd = Some s3" "ref_to 4 s2 s3 ?c3 (Suc ?bd)" by auto
    have sh3: "shape 4 s3" using ref_to_shape [OF sh2 s3(2)] .
    have f3: "N_blocks s3 = ?nb" "b s3 = Suc ?bd" "view 4 (A s3) = ?c3" "initv s3 = ?iv"
      using ref_to_fields [OF s3(2)] f2 by simp_all
    from sync_meta_to_A_ref [OF sh3] f3
    obtain s4 where s4: "sync_meta_to_A s3 = Some s4"
      "ref_to 4 s3 s4 (g_sync True ?nb ?c3 (Suc ?bd) ?iv) (Suc ?bd)"
      "flag s4 = (?nb \<le> Suc ?bd)" by auto
    have "ref_to 4 s s4 (g_sync True ?nb ?c3 (Suc ?bd) ?iv) (Suc ?bd)"
      using ref_to_trans [OF r1 ref_to_trans [OF s2(2) ref_to_trans [OF s3(2) s4(2)]]] .
    then show ?thesis using None s bd s2(1) s3(1) s4(1,3)
      by (simp add: extend4_def chainedTo_block4_ref partner_code_def g_extend_def)
  next
    case (Some k)
    then have k: "k < ?nb" by (simp add: g_chained_iff)
    have g1: "getA ?s1 (first_of4 k + 1) = Some (?c k 1)"
      using getA4_blk [OF sh1, of k 1] k by simp
    from setA4_blk [OF sh1, of ?bd 0 "?c k 1"] bd
    obtain s2 where s2: "setA ?s1 (first_of4 ?bd) (?c k 1) = Some s2"
      "ref_to 4 ?s1 s2 (put ?c ?bd 0 (?c k 1)) (Suc ?bd)" by auto
    have sh2: "shape 4 s2" using ref_to_shape [OF sh1 s2(2)] .
    have f2: "N_blocks s2 = ?nb" "b s2 = Suc ?bd" "view 4 (A s2) = put ?c ?bd 0 (?c k 1)"
      "initv s2 = ?iv"
      using ref_to_fields [OF s2(2)] by simp_all
    have g2: "getA s2 (first_of4 k + 2) = Some (?c k 2)"
      using getA4_blk [OF sh2, of k 2] k f2 by (simp add: put_apply)
    from setA4_blk [OF sh2, of ?bd 1 "?c k 2"] bd f2
    obtain s3 where s3: "setA s2 (first_of4 ?bd + 1) (?c k 2) = Some s3"
      "ref_to 4 s2 s3 (put (put ?c ?bd 0 (?c k 1)) ?bd 1 (?c k 2)) (Suc ?bd)" by auto
    have sh3: "shape 4 s3" using ref_to_shape [OF sh2 s3(2)] .
    have f3: "N_blocks s3 = ?nb" "b s3 = Suc ?bd"
      "view 4 (A s3) = put (put ?c ?bd 0 (?c k 1)) ?bd 1 (?c k 2)" "initv s3 = ?iv"
      using ref_to_fields [OF s3(2)] f2 by simp_all
    have g3: "getA s3 (first_of4 k + 3) = Some (?c k 3)"
      using getA4_blk [OF sh3, of k 3] k f3 by (simp add: put_apply)
    from setA4_blk [OF sh3, of ?bd 2 "?c k 3"] bd f3
    obtain s4 where s4: "setA s3 (first_of4 ?bd + 2) (?c k 3) = Some s4"
      "ref_to 4 s3 s4 (g_copy 4 ?c ?bd k) (Suc ?bd)" by (auto simp: g_copy_4)
    have sh4: "shape 4 s4" using ref_to_shape [OF sh3 s4(2)] .
    have f4: "N_blocks s4 = ?nb" "b s4 = Suc ?bd" "view 4 (A s4) = g_copy 4 ?c ?bd k"
      "initv s4 = ?iv"
      using ref_to_fields [OF s4(2)] f3 by simp_all
    let ?c5 = "g_break 4 ?nb (g_copy 4 ?c ?bd k) (Suc ?bd) ?bd"
    from breakChain4_ref [OF sh4, of ?bd] bd f4
    obtain s5 where s5: "breakChain4 s4 ?bd = Some s5" "ref_to 4 s4 s5 ?c5 (Suc ?bd)" by auto
    have sh5: "shape 4 s5" using ref_to_shape [OF sh4 s5(2)] .
    have f5: "N_blocks s5 = ?nb" "b s5 = Suc ?bd" "view 4 (A s5) = ?c5" "initv s5 = ?iv"
      using ref_to_fields [OF s5(2)] f4 by simp_all
    let ?c6 = "g_init 4 ?c5 ?iv k"
    from initBlock4_ref [OF sh5, of k] k f5
    obtain s6 where s6: "initBlock4 s5 k = Some s6" "ref_to 4 s5 s6 ?c6 (Suc ?bd)" by auto
    have sh6: "shape 4 s6" using ref_to_shape [OF sh5 s6(2)] .
    have f6: "N_blocks s6 = ?nb" "b s6 = Suc ?bd" "view 4 (A s6) = ?c6" "initv s6 = ?iv"
      using ref_to_fields [OF s6(2)] f5 by simp_all
    let ?c7 = "g_break 4 ?nb ?c6 (Suc ?bd) k"
    from breakChain4_ref [OF sh6, of k] k f6
    obtain s7 where s7: "breakChain4 s6 k = Some s7" "ref_to 4 s6 s7 ?c7 (Suc ?bd)" by auto
    have r7: "ref_to 4 s6 (inc_relocations s7) ?c7 (Suc ?bd)"
      using ref_to_inc_relocations [OF s7(2)] .
    let ?s7 = "inc_relocations s7"
    have sh7: "shape 4 ?s7" using ref_to_shape [OF sh6 r7] .
    have f7: "N_blocks ?s7 = ?nb" "b ?s7 = Suc ?bd" "view 4 (A ?s7) = ?c7" "initv ?s7 = ?iv"
      using ref_to_fields [OF r7] f6 by simp_all
    from sync_meta_to_A_ref [OF sh7] f7
    obtain s8 where s8: "sync_meta_to_A ?s7 = Some s8"
      "ref_to 4 ?s7 s8 (g_sync True ?nb ?c7 (Suc ?bd) ?iv) (Suc ?bd)"
      "flag s8 = (?nb \<le> Suc ?bd)" by auto
    have "ref_to 4 s s8 (g_sync True ?nb ?c7 (Suc ?bd) ?iv) (Suc ?bd)"
      using ref_to_trans [OF r1 ref_to_trans [OF s2(2) ref_to_trans [OF s3(2)
        ref_to_trans [OF s4(2) ref_to_trans [OF s5(2) ref_to_trans [OF s6(2)
        ref_to_trans [OF r7 s8(2)]]]]]]] .
    then show ?thesis using Some s bd g1 g2 g3 s2(1) s3(1) s4(1) s5(1) s6(1) s7(1) s8(1,3)
      by (simp add: extend4_def chainedTo_block4_ref partner_code_def g_extend_def)
  qed
qed

lemma mod4_cases: "(i::nat) mod 4 = 0 \<or> i mod 4 = 1 \<or> i mod 4 = 2 \<or> i mod 4 = 3"
  by presburger

lemma read_through4_ref:
  assumes s: "shape 4 s" and k: "k < N_blocks s" and i: "i < N s"
  shows "read_through4 s k i =
         Some (if i mod 4 < 3 then view 4 (A s) k (i mod 4 + 1)
               else view 4 (A s) (i div 4) (i mod 4))"
proof -
  have gi: "getA s i = Some (view 4 (A s) (i div 4) (i mod 4))"
    using getA_view [OF s _ i] by simp
  have gk: "getA s (first_of4 k + 1) = Some (view 4 (A s) k 1)"
    "getA s (first_of4 k + 2) = Some (view 4 (A s) k 2)"
    "getA s (first_of4 k + 3) = Some (view 4 (A s) k 3)"
    by (rule getA4_blk [OF s k], simp)+
  consider "i mod 4 = 0" | "i mod 4 = 1" | "i mod 4 = 2" | "i mod 4 = 3"
    using mod4_cases [of i] by auto
  then show ?thesis
  proof cases
    case 1
    then have "i mod 4 + 1 = 1" "i mod 4 < 3" by simp_all
    with 1 show ?thesis unfolding read_through4_def nat_and_3 gk by simp
  next
    case 2
    then have "i mod 4 + 1 = 2" "i mod 4 < 3" by simp_all
    with 2 show ?thesis unfolding read_through4_def nat_and_3 gk
      by (simp add: numeral_2_eq_2)
  next
    case 3
    then have "i mod 4 + 1 = 3" "i mod 4 < 3" by simp_all
    with 3 show ?thesis unfolding read_through4_def nat_and_3 gk
      by (simp add: numeral_2_eq_2 numeral_3_eq_3)
  next
    case 4
    then have "\<not> i mod 4 < 3" by simp
    with 4 show ?thesis unfolding read_through4_def nat_and_3 gi by simp
  qed
qed

lemma read_impl4_ref:
  assumes s: "shape 4 s" and fl: "flag s = (N_blocks s \<le> b s)" and bd: "b s \<le> N_blocks s"
    and i: "i < N s"
  shows "read_impl4 s i =
         Some (g_read 4 (N_blocks s) (view 4 (A s)) (b s) (initv s) (i div 4) (i mod 4))"
proof -
  have bi: "i div 4 < N_blocks s" using s i by (simp add: shape_def)
  have lt: "i < 4 * b s \<longleftrightarrow> i div 4 < b s" by auto
  have gi: "getA s i = Some (view 4 (A s) (i div 4) (i mod 4))"
    using getA_view [OF s _ i] by simp
  show ?thesis
  proof (cases "flag s")
    case True
    with fl bd have "b s = N_blocks s" by simp
    then have "g_chained 4 (N_blocks s) (view 4 (A s)) (b s) (i div 4) = None"
      using bi by (simp add: g_chained_top)
    with True gi bi \<open>b s = N_blocks s\<close> show ?thesis by (simp add: read_impl4_def g_read_def)
  next
    case nf: False
    show ?thesis
    proof (cases "g_chained 4 (N_blocks s) (view 4 (A s)) (b s) (i div 4)")
      case None
      then show ?thesis using s bi gi nf
        by (simp add: read_impl4_def chainedTo_block4_ref partner_code_def g_read_def lt)
    next
      case (Some k)
      then have k: "k < N_blocks s" by (simp add: g_chained_iff)
      show ?thesis using Some s bi gi nf read_through4_ref [OF s k i]
        by (simp add: read_impl4_def chainedTo_block4_ref partner_code_def g_read_def lt)
    qed
  qed
qed

lemma swap4_view:
  assumes "r \<noteq> x" "c = view 4 xs"
    and "c1 = put (put c r 0 (c x 0)) x 0 (c r 0)"
    and "c2 = put (put c1 r 1 (c1 x 1)) x 1 (c1 r 1)"
    and "c3 = put (put c2 r 2 (c2 x 2)) x 2 (c2 r 2)"
    and "c4 = put (put c3 r 3 (c3 x 3)) x 3 (c3 r 3)"
  shows "c4 = g_swap c r x"
proof (intro ext)
  fix z w
  have "w = 0 \<or> w = 1 \<or> w = 2 \<or> w = 3 \<or> (4::nat) \<le> w" by auto
  then show "c4 z w = g_swap c r x z w"
    using assms by (auto simp: put_apply g_swap_def view_beyond)
qed

lemma swap_blocks4_ref:
  assumes s: "shape 4 s" and r: "r < N_blocks s" and x: "x < N_blocks s" and rx: "r \<noteq> x"
  shows "\<exists>s'. swap_blocks4 s r x = Some s' \<and> ref_to 4 s s' (g_swap (view 4 (A s)) r x) (b s) \<and>
           flag s' = flag s"
proof -
  let ?c = "view 4 (A s)"
  let ?c1 = "put (put ?c r 0 (?c x 0)) x 0 (?c r 0)"
  let ?c2 = "put (put ?c1 r 1 (?c1 x 1)) x 1 (?c1 r 1)"
  let ?c3 = "put (put ?c2 r 2 (?c2 x 2)) x 2 (?c2 r 2)"
  let ?c4 = "put (put ?c3 r 3 (?c3 x 3)) x 3 (?c3 r 3)"
  from swapA4_blk [OF s r x, of 0]
  obtain s1 where s1: "swapA s (first_of4 r) (first_of4 x) = Some s1"
    "ref_to 4 s s1 ?c1 (b s)" "flag s1 = flag s" by auto
  have sh1: "shape 4 s1" using ref_to_shape [OF s s1(2)] .
  have f1: "N_blocks s1 = N_blocks s" "b s1 = b s" "view 4 (A s1) = ?c1"
    using ref_to_fields [OF s1(2)] by simp_all
  from swapA4_blk [OF sh1, of r x 1] r x f1
  obtain s2 where s2: "swapA s1 (first_of4 r + 1) (first_of4 x + 1) = Some s2"
    "ref_to 4 s1 s2 ?c2 (b s)" "flag s2 = flag s1" by auto
  have sh2: "shape 4 s2" using ref_to_shape [OF sh1 s2(2)] .
  have f2: "N_blocks s2 = N_blocks s" "b s2 = b s" "view 4 (A s2) = ?c2"
    using ref_to_fields [OF s2(2)] f1 by simp_all
  from swapA4_blk [OF sh2, of r x 2] r x f2
  obtain s3 where s3: "swapA s2 (first_of4 r + 2) (first_of4 x + 2) = Some s3"
    "ref_to 4 s2 s3 ?c3 (b s)" "flag s3 = flag s2" by auto
  have sh3: "shape 4 s3" using ref_to_shape [OF sh2 s3(2)] .
  have f3: "N_blocks s3 = N_blocks s" "b s3 = b s" "view 4 (A s3) = ?c3"
    using ref_to_fields [OF s3(2)] f2 by simp_all
  from swapA4_blk [OF sh3, of r x 3] r x f3
  obtain s4 where s4: "swapA s3 (first_of4 r + 3) (first_of4 x + 3) = Some s4"
    "ref_to 4 s3 s4 ?c4 (b s)" "flag s4 = flag s3" by auto
  have "?c4 = g_swap ?c r x" by (rule swap4_view [OF rx refl refl refl refl refl])
  then have "ref_to 4 s s4 (g_swap ?c r x) (b s)"
    using ref_to_trans [OF s1(2) ref_to_trans [OF s2(2) ref_to_trans [OF s3(2) s4(2)]]]
    by simp
  then show ?thesis using s1(1,3) s2(1,3) s3(1,3) s4(1,3)
    by (simp add: swap_blocks4_def)
qed

lemma set_break4:
  assumes s: "shape 4 s" and i: "i < N s"
  shows "\<exists>s'. (setA s i v \<bind> (\<lambda>s1. breakChain4 s1 (i div 4))) = Some s' \<and>
           ref_to 4 s s'
             (g_break 4 (N_blocks s) (put (view 4 (A s)) (i div 4) (i mod 4) v) (b s) (i div 4))
             (b s) \<and>
           flag s' = flag s"
proof -
  have bi: "i div 4 < N_blocks s" using s i by (simp add: shape_def)
  from setA4 [OF s i, of v]
  obtain s1 where s1: "setA s i v = Some s1"
    "ref_to 4 s s1 (put (view 4 (A s)) (i div 4) (i mod 4) v) (b s)" "flag s1 = flag s" by auto
  have sh1: "shape 4 s1" using ref_to_shape [OF s s1(2)] .
  have f1: "N_blocks s1 = N_blocks s" "b s1 = b s"
    "view 4 (A s1) = put (view 4 (A s)) (i div 4) (i mod 4) v"
    using ref_to_fields [OF s1(2)] by simp_all
  from breakChain4_ref [OF sh1, of "i div 4"] bi f1
  obtain s2 where s2: "breakChain4 s1 (i div 4) = Some s2"
    "ref_to 4 s1 s2
       (g_break 4 (N_blocks s) (put (view 4 (A s)) (i div 4) (i mod 4) v) (b s) (i div 4)) (b s)"
    "flag s2 = flag s1"
    by auto
  show ?thesis using s1(1,3) s2(1,3) ref_to_trans [OF s1(2) s2(2)] by simp
qed

lemma through4:
  assumes s: "shape 4 s" and i: "i < N s" and k: "k < N_blocks s"
  shows "\<exists>s'. write_through4 s k i v = Some s' \<and>
           ref_to 4 s s' (g_through 4 (view 4 (A s)) k (i div 4) (i mod 4) v) (b s) \<and>
           flag s' = flag s"
proof -
  consider "i mod 4 = 0" | "i mod 4 = 1" | "i mod 4 = 2" | "i mod 4 = 3"
    using mod4_cases [of i] by auto
  then show ?thesis
  proof cases
    case 1
    then have e: "i mod 4 + 1 = 1" "i mod 4 < 4 - 1" by simp_all
    from setA4_blk [OF s k, of 1 v] 1 show ?thesis
      unfolding write_through4_def nat_and_3 g_through_def e by auto
  next
    case 2
    then have e: "i mod 4 + 1 = 2" "i mod 4 < 4 - 1" by simp_all
    from setA4_blk [OF s k, of 2 v] 2 show ?thesis
      unfolding write_through4_def nat_and_3 g_through_def e by auto
  next
    case 3
    then have e: "i mod 4 + 1 = 3" "i mod 4 < 4 - 1" by simp_all
    from setA4_blk [OF s k, of 3 v] 3 show ?thesis
      unfolding write_through4_def nat_and_3 g_through_def e by auto
  next
    case 4
    then have e: "\<not> i mod 4 < 4 - 1" by simp
    from setA4 [OF s i, of v] 4 show ?thesis
      unfolding write_through4_def nat_and_3 g_through_def using e by auto
  qed
qed

lemma write_impl4_ref:
  assumes s: "shape 4 s" and fl: "flag s = (N_blocks s \<le> b s)" and bd: "b s \<le> N_blocks s"
    and i: "i < N s"
  shows "\<exists>s'. write_impl4 s i v = Some s' \<and>
           ref_to 4 s s'
             (fst (g_write 4 (N_blocks s) True (view 4 (A s)) (b s) (initv s) (i div 4) (i mod 4) v))
             (snd (g_write 4 (N_blocks s) True (view 4 (A s)) (b s) (initv s) (i div 4) (i mod 4) v)) \<and>
           flag s' =
             (N_blocks s \<le>
              snd (g_write 4 (N_blocks s) True (view 4 (A s)) (b s) (initv s) (i div 4) (i mod 4) v))"
proof -
  let ?nb = "N_blocks s" and ?c = "view 4 (A s)" and ?bd = "b s" and ?iv = "initv s"
  let ?x = "i div 4" and ?t = "i mod 4"
  let ?e = "g_extend 4 ?nb True ?c ?bd ?iv"
  have x: "?x < ?nb" using s i by (simp add: shape_def)
  show ?thesis
  proof (cases "flag s")
    case True
    with fl bd have top: "?bd = ?nb" by simp
    have "g_chained 4 ?nb ?c ?nb ?x = None" "g_chained 4 ?nb (put ?c ?x ?t v) ?nb ?x = None"
      using x by (simp_all add: g_chained_top)
    then have "g_write 4 ?nb True ?c ?bd ?iv ?x ?t v = (put ?c ?x ?t v, ?nb)"
      using top x by (simp add: g_write_def g_break_def)
    with setA4 [OF s i, of v] True top show ?thesis by (auto simp: write_impl4_def)
  next
    case nf: False
    with fl have b: "?bd < ?nb" by simp
    have chain: "chainedTo_block4 s ?x = Some (partner_code (g_chained 4 ?nb ?c ?bd ?x))"
      using chainedTo_block4_ref [OF s x] .
    have "extend_post 4 ?nb ?c ?bd ?iv (fst ?e) (snd ?e)"
      using g_extend_post [of 4 True ?bd ?nb ?c ?iv] b by simp
    then have "snd ?e \<le> ?bd" by (simp add: extend_post_def)
    with extend4_ref [OF s b] b
    obtain s1 where s1: "extend4 s = Some (s1, snd ?e)" "ref_to 4 s s1 (fst ?e) (Suc ?bd)"
      "snd ?e < ?nb" "flag s1 = (?nb \<le> Suc ?bd)" by auto
    have sh1: "shape 4 s1" using ref_to_shape [OF s s1(2)] .
    have f1: "N_blocks s1 = ?nb" "b s1 = Suc ?bd" "view 4 (A s1) = fst ?e" "initv s1 = ?iv"
      "N s1 = N s"
      using ref_to_fields [OF s1(2)] by simp_all
    show ?thesis
    proof (cases "g_chained 4 ?nb ?c ?bd ?x")
      case None
      show ?thesis
      proof (cases "?x < ?bd")
        case True
        with None nf b chain set_break4 [OF s i, of v] show ?thesis
          by (auto simp: write_impl4_def partner_code_def g_write_def)
      next
        case False
        show ?thesis
        proof (cases "snd ?e = ?x")
          case True
          from set_break4 [OF sh1, of i v] i f1
          obtain s2 where "(setA s1 i v \<bind> (\<lambda>s. breakChain4 s ?x)) = Some s2"
            "ref_to 4 s1 s2 (g_break 4 ?nb (put (fst ?e) ?x ?t v) (Suc ?bd) ?x) (Suc ?bd)"
            "flag s2 = flag s1" by auto
          with None False True nf chain s1(1,4) ref_to_trans [OF s1(2)] show ?thesis
            by (auto simp: write_impl4_def partner_code_def g_write_def split_beta)
        next
          case ne: False
          from initBlock4_ref [OF sh1, of ?x] x f1
          obtain s2 where s2: "initBlock4 s1 ?x = Some s2"
            "ref_to 4 s1 s2 (g_init 4 (fst ?e) ?iv ?x) (Suc ?bd)" "flag s2 = flag s1" by auto
          have sh2: "shape 4 s2" using ref_to_shape [OF sh1 s2(2)] .
          have f2: "N_blocks s2 = ?nb" "b s2 = Suc ?bd" "view 4 (A s2) = g_init 4 (fst ?e) ?iv ?x"
            "N s2 = N s"
            using ref_to_fields [OF s2(2)] f1 by simp_all
          from makeChain4_ref [OF sh2, of "snd ?e" ?x] x s1(3) f2
          obtain s3 where s3: "makeChain4 s2 (snd ?e) ?x = Some s3"
            "ref_to 4 s2 s3 (g_make 4 (g_init 4 (fst ?e) ?iv ?x) (snd ?e) ?x) (Suc ?bd)"
            "flag s3 = flag s2" by auto
          have sh3: "shape 4 s3" using ref_to_shape [OF sh2 s3(2)] .
          have f3: "N_blocks s3 = ?nb" "b s3 = Suc ?bd"
            "view 4 (A s3) = g_make 4 (g_init 4 (fst ?e) ?iv ?x) (snd ?e) ?x" "N s3 = N s"
            using ref_to_fields [OF s3(2)] f2 by simp_all
          from through4 [OF sh3, of i "snd ?e" v] i s1(3) f3
          obtain s4 where s4: "write_through4 s3 (snd ?e) i v = Some s4"
            "ref_to 4 s3 s4
               (g_through 4 (g_make 4 (g_init 4 (fst ?e) ?iv ?x) (snd ?e) ?x) (snd ?e) ?x ?t v)
               (Suc ?bd)" "flag s4 = flag s3" by auto
          have "ref_to 4 s s4
               (g_through 4 (g_make 4 (g_init 4 (fst ?e) ?iv ?x) (snd ?e) ?x) (snd ?e) ?x ?t v)
               (Suc ?bd)"
            using ref_to_trans [OF s1(2) ref_to_trans [OF s2(2) ref_to_trans [OF s3(2) s4(2)]]] .
          with None False ne nf chain s1(1,4) s2(1,3) s3(1,3) s4(1,3) show ?thesis
            by (auto simp: write_impl4_def partner_code_def g_write_def split_beta)
        qed
      qed
    next
      case (Some k)
      then have k: "k < ?nb" by (simp add: g_chained_iff)
      show ?thesis
      proof (cases "?x < ?bd")
        case True
        show ?thesis
        proof (cases "snd ?e = ?x")
          case eq: True
          from set_break4 [OF sh1, of i v] i f1
          obtain s2 where "(setA s1 i v \<bind> (\<lambda>s. breakChain4 s ?x)) = Some s2"
            "ref_to 4 s1 s2 (g_break 4 ?nb (put (fst ?e) ?x ?t v) (Suc ?bd) ?x) (Suc ?bd)"
            "flag s2 = flag s1" by auto
          with Some True eq nf chain s1(1,4) ref_to_trans [OF s1(2)] show ?thesis
            by (auto simp: write_impl4_def partner_code_def g_write_def split_beta)
        next
          case ne: False
          let ?r = "snd ?e" and ?c1 = "fst ?e"
          from swap_blocks4_ref [OF sh1, of ?r ?x] x s1(3) f1 ne
          obtain s2 where s2: "swap_blocks4 s1 ?r ?x = Some s2"
            "ref_to 4 s1 s2 (g_swap ?c1 ?r ?x) (Suc ?bd)" "flag s2 = flag s1" by auto
          have r3: "ref_to 4 s1 (inc_relocations s2) (g_swap ?c1 ?r ?x) (Suc ?bd)"
            using ref_to_inc_relocations [OF s2(2)] .
          let ?s3 = "inc_relocations s2"
          have sh3: "shape 4 ?s3" using ref_to_shape [OF sh1 r3] .
          have f3: "N_blocks ?s3 = ?nb" "b ?s3 = Suc ?bd" "view 4 (A ?s3) = g_swap ?c1 ?r ?x"
            "initv ?s3 = ?iv" "flag ?s3 = flag s1"
            using ref_to_fields [OF r3] f1 s2(3) by (simp_all add: inc_relocations_def)
          let ?c4 = "g_make 4 (g_swap ?c1 ?r ?x) ?r k"
          from makeChain4_ref [OF sh3, of ?r k] k s1(3) f3
          obtain s4 where s4: "makeChain4 ?s3 ?r k = Some s4" "ref_to 4 ?s3 s4 ?c4 (Suc ?bd)"
            "flag s4 = flag s1" by auto
          have sh4: "shape 4 s4" using ref_to_shape [OF sh3 s4(2)] .
          have f4: "N_blocks s4 = ?nb" "b s4 = Suc ?bd" "view 4 (A s4) = ?c4" "initv s4 = ?iv"
            using ref_to_fields [OF s4(2)] f3 by simp_all
          from initBlock4_ref [OF sh4, of ?x] x f4
          obtain s5 where s5: "initBlock4 s4 ?x = Some s5"
            "ref_to 4 s4 s5 (g_init 4 ?c4 ?iv ?x) (Suc ?bd)" "flag s5 = flag s4" by auto
          have sh5: "shape 4 s5" using ref_to_shape [OF sh4 s5(2)] .
          have f5: "N_blocks s5 = ?nb" "b s5 = Suc ?bd" "view 4 (A s5) = g_init 4 ?c4 ?iv ?x"
            "N s5 = N s"
            using ref_to_fields [OF s5(2)] ref_to_fields [OF s4(2)] ref_to_fields [OF r3] f1
            by simp_all
          from set_break4 [OF sh5, of i v] i f5
          obtain s6 where s6: "(setA s5 i v \<bind> (\<lambda>s. breakChain4 s ?x)) = Some s6"
            "ref_to 4 s5 s6 (g_break 4 ?nb (put (g_init 4 ?c4 ?iv ?x) ?x ?t v) (Suc ?bd) ?x) (Suc ?bd)"
            "flag s6 = flag s5"
            by auto
          have "ref_to 4 s s6
              (g_break 4 ?nb (put (g_init 4 ?c4 ?iv ?x) ?x ?t v) (Suc ?bd) ?x) (Suc ?bd)"
            using ref_to_trans [OF s1(2) ref_to_trans [OF r3
              ref_to_trans [OF s4(2) ref_to_trans [OF s5(2) s6(2)]]]] .
          with Some True ne nf chain s1(1,4) s2(1) s4(1,3) s5(1,3) s6(1,3) show ?thesis
            by (auto simp: write_impl4_def partner_code_def g_write_def split_beta)
        qed
      next
        case False
        from through4 [OF s i k, of v]
        obtain s2 where "write_through4 s k i v = Some s2"
          "ref_to 4 s s2 (g_through 4 ?c k ?x ?t v) ?bd" "flag s2 = flag s" by auto
        with Some False nf b chain show ?thesis
          by (auto simp: write_impl4_def partner_code_def g_write_def)
      qed
    qed
  qed
qed

section \<open>The two arrays behave like a plain array\<close>

lemma idx_eq: "0 < B \<Longrightarrow> (j div B = i div B \<and> j mod B = i mod B) = ((j::nat) = i)"
  by (metis div_mult_mod_eq)

lemma new3_wf: "InPlaceArraySec3_new pf n = Inr s \<Longrightarrow> wf3 s"
  by (auto simp: InPlaceArraySec3_new_def vector_new_def wf3_def shape_def split: if_splits)

lemma init3_wf: "wf3 s \<Longrightarrow> wf3 (init3 s v)"
  by (simp add: wf3_def shape_def init3_def shadow_on_init_def Let_def)

lemma enable3_wf: "wf3 s \<Longrightarrow> wf3 (enable_verification s)"
  by (simp add: wf3_def shape_def enable_verification_def)

lemma init3_logical: "wf3 s \<Longrightarrow> logical3 (init3 s v) j = v"
  by (simp add: logical3_def init3_def shadow_on_init_def Let_def g_read_def g_chained_zero)

lemma read3_ok:
  assumes "wf3 s" "i < N s"
  shows "read3 s i = Some (s\<lparr>ctr := (ctr s)\<lparr>reads := reads (ctr s) + 1\<rparr>\<rparr>, Inr (logical3 s i))"
proof -
  let ?s1 = "s\<lparr>ctr := (ctr s)\<lparr>reads := reads (ctr s) + 1\<rparr>\<rparr>"
  have "shape 2 ?s1" "i < N ?s1" using assms by (simp_all add: wf3_def shape_def)
  from read_impl3_ref [OF this] assms show ?thesis
    by (simp add: read3_def logical3_def)
qed

lemma shadow_on_write_frame:
  fixes s :: "'a InPlaceArraySec3_scheme"
  assumes "verifying s \<longrightarrow> length (shadow s) = N s \<and> length (stamp s) = N s" "i < N s"
  shows "\<exists>s'. shadow_on_write s i v = Some s' \<and> A s' = A s \<and> b s' = b s \<and>
           initv s' = initv s \<and> N s' = N s \<and> N_blocks s' = N_blocks s \<and>
           verifying s' = verifying s \<and> length (shadow s') = length (shadow s) \<and>
           length (stamp s') = length (stamp s) \<and>
           InPlaceArraySec3.more s' = InPlaceArraySec3.more s"
  using assms by (auto simp: shadow_on_write_def vec_set_def)

lemma write3_ok:
  assumes wf: "wf3 s" and i: "i < N s"
  shows "\<exists>s'. write3 s i v = Some (s', Inr ()) \<and> wf3 s' \<and> N s' = N s \<and>
           (\<forall>j < N s. logical3 s' j = (if j = i then v else logical3 s j))"
proof -
  let ?s1 = "s\<lparr>ctr := (ctr s)\<lparr>writes := writes (ctr s) + 1\<rparr>\<rparr>"
  let ?g = "g_write 2 (N_blocks s) False (view 2 (A s)) (b s) (initv s) (i div 2) (i mod 2) v"
  have sh: "shape 2 ?s1" "b ?s1 \<le> N_blocks ?s1" "i < N ?s1"
    using wf i by (simp_all add: wf3_def shape_def)
  have x: "i div 2 < N_blocks s" using wf i by (simp add: wf3_def shape_def)
  have bd: "b s \<le> N_blocks s" using wf by (simp add: wf3_def)
  from write_impl3_ref [OF sh, of v]
  obtain s2 where s2: "write_impl3 ?s1 i v = Some s2" "ref_to 2 ?s1 s2 (fst ?g) (snd ?g)"
    by auto
  have f2: "same_frame ?s1 s2" "b s2 = snd ?g" "view 2 (A s2) = fst ?g"
    using s2(2) by (simp_all add: ref_to_def)
  then have fr: "N s2 = N s" "N_blocks s2 = N_blocks s" "initv s2 = initv s"
    "verifying s2 = verifying s" "shadow s2 = shadow s" "stamp s2 = stamp s"
    "length (A s2) = length (A s)"
    by (simp_all add: same_frame_def)
  have b2: "b s2 \<le> N_blocks s" using f2(2) g_write_bound [of 2 "b s" "N_blocks s" "i div 2"] bd x
    by simp
  have wf2: "wf3 s2" using wf fr b2 by (simp add: wf3_def shape_def)
  have lg: "logical3 s2 j = (if j = i then v else logical3 s j)" if "j < N s" for j
  proof -
    have y: "j div 2 < N_blocks s" using wf that by (simp add: wf3_def shape_def)
    have "logical3 s2 j = g_read 2 (N_blocks s) (fst ?g) (snd ?g) (initv s) (j div 2) (j mod 2)"
      using fr f2 by (simp add: logical3_def)
    also have "\<dots> = (if j div 2 = i div 2 \<and> j mod 2 = i mod 2 then v else logical3 s j)"
      unfolding logical3_def
      by (rule g_write_read [of 2 False "b s" "N_blocks s" "i div 2" "i mod 2" "j div 2" "j mod 2"])
        (use bd x y in simp_all)
    finally show ?thesis by (simp add: idx_eq)
  qed
  from shadow_on_write_frame [of s2 i v] wf fr i
  obtain s3 where s3: "shadow_on_write s2 i v = Some s3" "A s3 = A s2" "b s3 = b s2"
    "initv s3 = initv s2" "N s3 = N s2" "N_blocks s3 = N_blocks s2" "verifying s3 = verifying s2"
    "length (shadow s3) = length (shadow s2)" "length (stamp s3) = length (stamp s2)"
    by (auto simp: wf3_def)
  show ?thesis
  proof (cases "verifying s2")
    case True
    have "wf3 s3" using wf2 s3 by (simp add: wf3_def shape_def)
    moreover have "logical3 s3 = logical3 s2" using s3 by (simp add: logical3_def fun_eq_iff)
    ultimately show ?thesis using True s2(1) s3(1,5) fr lg i wf
      by (simp add: write3_def wf3_def shape_def)
  next
    case False
    then show ?thesis using s2(1) fr lg wf2 i wf
      by (simp add: write3_def wf3_def shape_def)
  qed
qed

lemma step3_ok:
  assumes "wf3 s"
  shows "\<exists>s'. step3 s x = Some s' \<and> wf3 s'"
proof (cases x)
  case (Init v)
  with assms show ?thesis by (simp add: init3_wf)
next
  case (Read i)
  have c: "wf3 (s\<lparr>ctr := (ctr s)\<lparr>reads := reads (ctr s) + 1\<rparr>\<rparr>)"
    using assms by (simp add: wf3_def shape_def)
  show ?thesis
  proof (cases "i < N s")
    case True
    with Read read3_ok [OF assms True] c show ?thesis by simp
  next
    case False
    with Read c show ?thesis by (simp add: read3_def)
  qed
next
  case (Write i v)
  have c: "wf3 (s\<lparr>ctr := (ctr s)\<lparr>writes := writes (ctr s) + 1\<rparr>\<rparr>)"
    using assms by (simp add: wf3_def shape_def)
  show ?thesis
  proof (cases "i < N s")
    case True
    with Write write3_ok [OF assms True, of v] show ?thesis by auto
  next
    case False
    with Write c show ?thesis by (simp add: write3_def)
  qed
next
  case Enable
  with assms show ?thesis by (simp add: enable3_wf)
qed

lemma run3_ok: "wf3 s \<Longrightarrow> \<exists>s'. run3 s xs = Some s' \<and> wf3 s'"
proof (induction xs arbitrary: s)
  case Nil
  then show ?case by simp
next
  case (Cons x xs)
  from step3_ok [OF Cons.prems, of x] obtain s1 where "step3 s x = Some s1" "wf3 s1" by auto
  with Cons.IH [of s1] show ?case by simp
qed

lemma sec3_write_then_read:
  assumes "wf3 s" "i < N s" "j < N s"
  shows "\<exists>s' s1 s2. read3 s j = Some (s', Inr (logical3 s j)) \<and>
           write3 s' i v = Some (s1, Inr ()) \<and>
           read3 s1 j = Some (s2, Inr (if j = i then v else logical3 s j))"
proof -
  let ?s' = "s\<lparr>ctr := (ctr s)\<lparr>reads := reads (ctr s) + 1\<rparr>\<rparr>"
  have r: "read3 s j = Some (?s', Inr (logical3 s j))" by (rule read3_ok [OF assms(1,3)])
  have wf': "wf3 ?s'" "i < N ?s'" "logical3 ?s' j = logical3 s j"
    using assms by (simp_all add: wf3_def shape_def logical3_def)
  from write3_ok [OF wf'(1,2), of v]
  obtain s1 where s1: "write3 ?s' i v = Some (s1, Inr ())" "wf3 s1" "N s1 = N s"
    "\<forall>j < N s. logical3 s1 j = (if j = i then v else logical3 ?s' j)" by auto
  have "j < N s1" using s1(3) assms(3) by simp
  from read3_ok [OF s1(2) this] s1(4) assms(3) wf'(3) r s1(1) show ?thesis by auto
qed

lemma new4_wf: "InPlaceArraySec4_new pf n = Inr s \<Longrightarrow> wf4 s"
  by (auto simp: InPlaceArraySec4_new_def vector_new_def wf4_def shape_def split: if_splits)

lemma enable4_wf: "wf4 s \<Longrightarrow> wf4 (enable_verification s)"
  by (simp add: wf4_def shape_def enable_verification_def)

lemma shadow_on_init_frame:
  fixes s :: "'a InPlaceArraySec3_scheme"
  shows "A (shadow_on_init s v) = A s \<and> b (shadow_on_init s v) = b s \<and>
         initv (shadow_on_init s v) = initv s \<and> N (shadow_on_init s v) = N s \<and>
         N_blocks (shadow_on_init s v) = N_blocks s \<and>
         verifying (shadow_on_init s v) = verifying s \<and>
         length (shadow (shadow_on_init s v)) = length (shadow s) \<and>
         length (stamp (shadow_on_init s v)) = length (stamp s) \<and>
         InPlaceArraySec3.more (shadow_on_init s v) = InPlaceArraySec3.more s"
  by (simp add: shadow_on_init_def Let_def)

lemma shadow_on_write_flag:
  fixes s :: InPlaceArraySec4
  shows "shadow_on_write s i v = Some s' \<Longrightarrow> flag s' = flag s"
  by (auto simp: shadow_on_write_def vec_set_def split: if_splits)

lemma init4_ok:
  assumes wf: "wf4 s"
  shows "\<exists>s'. init4 s v = Some s' \<and> wf4 s' \<and> N s' = N s \<and> (\<forall>j. logical4 s' j = v)"
proof -
  let ?s2 = "s\<lparr>ctr := (ctr s)\<lparr>inits := inits (ctr s) + 1\<rparr>, initv := v, b := 0,
               flag := (N_blocks s = 0)\<rparr>"
  have sh2: "shape 4 ?s2" using wf by (simp add: wf4_def shape_def)
  from sync_meta_to_A_ref [OF sh2]
  obtain s3 where s3: "sync_meta_to_A ?s2 = Some s3"
    "ref_to 4 ?s2 s3 (g_sync True (N_blocks s) (view 4 (A s)) 0 v) 0"
    "flag s3 = (N_blocks s \<le> 0)" by auto
  have fr: "N s3 = N s" "N_blocks s3 = N_blocks s" "initv s3 = v" "b s3 = 0"
    "verifying s3 = verifying s" "shadow s3 = shadow s" "stamp s3 = stamp s"
    "length (A s3) = length (A s)"
    using s3(2) by (simp_all add: ref_to_def same_frame_def)
  let ?s4 = "shadow_on_init s3 v"
  note f4 = shadow_on_init_frame [of s3 v]
  have fl: "flag ?s4 = flag s3" by (simp add: shadow_on_init_def Let_def)
  have "wf4 ?s4" using wf fr f4 fl s3(3) by (simp add: wf4_def shape_def)
  moreover have "logical4 ?s4 j = v" for j
    using fr f4 by (simp add: logical4_def g_read_def g_chained_zero)
  ultimately show ?thesis using s3(1) fr f4 by (simp add: init4_def Let_def)
qed

lemma read4_ok:
  assumes "wf4 s" "i < N s"
  shows "read4 s i = Some (s\<lparr>ctr := (ctr s)\<lparr>reads := reads (ctr s) + 1\<rparr>\<rparr>, Inr (logical4 s i))"
proof -
  let ?s1 = "s\<lparr>ctr := (ctr s)\<lparr>reads := reads (ctr s) + 1\<rparr>\<rparr>"
  have "shape 4 ?s1" "flag ?s1 = (N_blocks ?s1 \<le> b ?s1)" "b ?s1 \<le> N_blocks ?s1" "i < N ?s1"
    using assms by (simp_all add: wf4_def shape_def)
  from read_impl4_ref [OF this] assms show ?thesis
    by (simp add: read4_def logical4_def)
qed

lemma write4_ok:
  assumes wf: "wf4 s" and i: "i < N s"
  shows "\<exists>s'. write4 s i v = Some (s', Inr ()) \<and> wf4 s' \<and> N s' = N s \<and>
           (\<forall>j < N s. logical4 s' j = (if j = i then v else logical4 s j))"
proof -
  let ?s1 = "s\<lparr>ctr := (ctr s)\<lparr>writes := writes (ctr s) + 1\<rparr>\<rparr>"
  let ?g = "g_write 4 (N_blocks s) True (view 4 (A s)) (b s) (initv s) (i div 4) (i mod 4) v"
  have sh: "shape 4 ?s1" "flag ?s1 = (N_blocks ?s1 \<le> b ?s1)" "b ?s1 \<le> N_blocks ?s1" "i < N ?s1"
    using wf i by (simp_all add: wf4_def shape_def)
  have x: "i div 4 < N_blocks s" using wf i by (simp add: wf4_def shape_def)
  have bd: "b s \<le> N_blocks s" using wf by (simp add: wf4_def)
  from write_impl4_ref [OF sh, of v]
  obtain s2 where s2: "write_impl4 ?s1 i v = Some s2" "ref_to 4 ?s1 s2 (fst ?g) (snd ?g)"
    "flag s2 = (N_blocks s \<le> snd ?g)"
    by auto
  have f2: "same_frame ?s1 s2" "b s2 = snd ?g" "view 4 (A s2) = fst ?g"
    using s2(2) by (simp_all add: ref_to_def)
  then have fr: "N s2 = N s" "N_blocks s2 = N_blocks s" "initv s2 = initv s"
    "verifying s2 = verifying s" "shadow s2 = shadow s" "stamp s2 = stamp s"
    "length (A s2) = length (A s)"
    by (simp_all add: same_frame_def)
  have b2: "b s2 \<le> N_blocks s" using f2(2) g_write_bound [of 4 "b s" "N_blocks s" "i div 4"] bd x
    by simp
  have wf2: "wf4 s2" using wf fr b2 s2(3) f2(2) by (simp add: wf4_def shape_def)
  have lg: "logical4 s2 j = (if j = i then v else logical4 s j)" if "j < N s" for j
  proof -
    have y: "j div 4 < N_blocks s" using wf that by (simp add: wf4_def shape_def)
    have "logical4 s2 j = g_read 4 (N_blocks s) (fst ?g) (snd ?g) (initv s) (j div 4) (j mod 4)"
      using fr f2 by (simp add: logical4_def)
    also have "\<dots> = (if j div 4 = i div 4 \<and> j mod 4 = i mod 4 then v else logical4 s j)"
      unfolding logical4_def
      by (rule g_write_read [of 4 True "b s" "N_blocks s" "i div 4" "i mod 4" "j div 4" "j mod 4"])
        (use bd x y in simp_all)
    finally show ?thesis by (simp add: idx_eq)
  qed
  from shadow_on_write_frame [of s2 i v] wf fr i
  obtain s3 where s3: "shadow_on_write s2 i v = Some s3" "A s3 = A s2" "b s3 = b s2"
    "initv s3 = initv s2" "N s3 = N s2" "N_blocks s3 = N_blocks s2" "verifying s3 = verifying s2"
    "length (shadow s3) = length (shadow s2)" "length (stamp s3) = length (stamp s2)"
    by (auto simp: wf4_def)
  have fl3: "flag s3 = flag s2" using shadow_on_write_flag [OF s3(1)] .
  show ?thesis
  proof (cases "verifying s2")
    case True
    have "wf4 s3" using wf2 s3 fl3 by (simp add: wf4_def shape_def)
    moreover have "logical4 s3 = logical4 s2" using s3 by (simp add: logical4_def fun_eq_iff)
    ultimately show ?thesis using True s2(1) s3(1,5) fr lg i wf
      by (simp add: write4_def wf4_def shape_def)
  next
    case False
    then show ?thesis using s2(1) fr lg wf2 i wf
      by (simp add: write4_def wf4_def shape_def)
  qed
qed

lemma step4_ok:
  assumes "wf4 s"
  shows "\<exists>s'. step4 s x = Some s' \<and> wf4 s'"
proof (cases x)
  case (Init v)
  with init4_ok [OF assms, of v] show ?thesis by auto
next
  case (Read i)
  have c: "wf4 (s\<lparr>ctr := (ctr s)\<lparr>reads := reads (ctr s) + 1\<rparr>\<rparr>)"
    using assms by (simp add: wf4_def shape_def)
  show ?thesis
  proof (cases "i < N s")
    case True
    with Read read4_ok [OF assms True] c show ?thesis by simp
  next
    case False
    with Read c show ?thesis by (simp add: read4_def)
  qed
next
  case (Write i v)
  have c: "wf4 (s\<lparr>ctr := (ctr s)\<lparr>writes := writes (ctr s) + 1\<rparr>\<rparr>)"
    using assms by (simp add: wf4_def shape_def)
  show ?thesis
  proof (cases "i < N s")
    case True
    with Write write4_ok [OF assms True, of v] show ?thesis by auto
  next
    case False
    with Write c show ?thesis by (simp add: write4_def)
  qed
next
  case Enable
  with assms show ?thesis by (simp add: enable4_wf)
qed

lemma run4_ok: "wf4 s \<Longrightarrow> \<exists>s'. run4 s xs = Some s' \<and> wf4 s'"
proof (induction xs arbitrary: s)
  case Nil
  then show ?case by simp
next
  case (Cons x xs)
  from step4_ok [OF Cons.prems, of x] obtain s1 where "step4 s x = Some s1" "wf4 s1" by auto
  with Cons.IH [of s1] show ?case by simp
qed

lemma sec4_write_then_read:
  assumes "wf4 s" "i < N s" "j < N s"
  shows "\<exists>s' s1 s2. read4 s j = Some (s', Inr (logical4 s j)) \<and>
           write4 s' i v = Some (s1, Inr ()) \<and>
           read4 s1 j = Some (s2, Inr (if j = i then v else logical4 s j))"
proof -
  let ?s' = "s\<lparr>ctr := (ctr s)\<lparr>reads := reads (ctr s) + 1\<rparr>\<rparr>"
  have r: "read4 s j = Some (?s', Inr (logical4 s j))" by (rule read4_ok [OF assms(1,3)])
  have wf': "wf4 ?s'" "i < N ?s'" "logical4 ?s' j = logical4 s j"
    using assms by (simp_all add: wf4_def shape_def logical4_def)
  from write4_ok [OF wf'(1,2), of v]
  obtain s1 where s1: "write4 ?s' i v = Some (s1, Inr ())" "wf4 s1" "N s1 = N s"
    "\<forall>j < N s. logical4 s1 j = (if j = i then v else logical4 ?s' j)" by auto
  have "j < N s1" using s1(3) assms(3) by simp
  from read4_ok [OF s1(2) this] s1(4) assms(3) wf'(3) r s1(1) show ?thesis by auto
qed

lemma init3_N: "N (init3 s v) = N s"
  by (simp add: init3_def shadow_on_init_def Let_def)

subsection \<open>Agreement with the plain array\<close>

lemma new3_agree:
  assumes "InPlaceArraySec3_new pf n = Inr s" "StdVectorWrapper_new pf' n = Inr d"
  shows "agree3 s d"
proof -
  have wf: "wf3 s" using assms(1) by (rule new3_wf)
  from assms(1) have f: "N s = n" "b s = 0" "initv s = 0"
    by (auto simp: InPlaceArraySec3_new_def vector_new_def split: if_splits)
  from assms(2) have g: "sv_N d = n" "data d = replicate n 0"
    by (auto simp: StdVectorWrapper_new_def vector_new_def split: if_splits)
  have "logical3 s j = 0" for j
    by (simp add: logical3_def f g_read_def g_chained_zero)
  with wf f g show ?thesis by (simp add: agree3_def)
qed

lemma new4_agree:
  assumes "InPlaceArraySec4_new pf n = Inr s" "StdVectorWrapper_new pf' n = Inr d"
  shows "agree4 s d"
proof -
  have wf: "wf4 s" using assms(1) by (rule new4_wf)
  from assms(1) have f: "N s = n" "b s = 0" "initv s = 0"
    by (auto simp: InPlaceArraySec4_new_def vector_new_def split: if_splits)
  from assms(2) have g: "sv_N d = n" "data d = replicate n 0"
    by (auto simp: StdVectorWrapper_new_def vector_new_def split: if_splits)
  have "logical4 s j = 0" for j
    by (simp add: logical4_def f g_read_def g_chained_zero)
  with wf f g show ?thesis by (simp add: agree4_def)
qed

lemma step_sv_ok:
  assumes "sv_N d = n" "length (data d) = n"
  shows "\<exists>d'. step_sv d x = Some d' \<and> sv_N d' = n \<and> length (data d') = n \<and>
           (\<forall>j < n. data d' ! j =
              (case x of Init v \<Rightarrow> v | Write i v \<Rightarrow> if j = i then v else data d ! j
               | _ \<Rightarrow> data d ! j))"
  using assms
  by (cases x)
    (auto simp: sv_init_def sv_read_def sv_write_def sv_enable_verification_def Let_def
      vec_get_def vec_set_def)

lemma step3_agree:
  assumes a: "agree3 s d"
  shows "\<exists>s' d'. step3 s x = Some s' \<and> step_sv d x = Some d' \<and> agree3 s' d'"
proof -
  from a have wf: "wf3 s" and n: "sv_N d = N s" "length (data d) = N s"
    and lg: "\<forall>j < N s. logical3 s j = data d ! j" by (simp_all add: agree3_def)
  from step_sv_ok [OF n, of x]
  obtain d' where d': "step_sv d x = Some d'" "sv_N d' = N s" "length (data d') = N s"
    "\<forall>j < N s. data d' ! j =
       (case x of Init v \<Rightarrow> v | Write i v \<Rightarrow> if j = i then v else data d ! j
        | _ \<Rightarrow> data d ! j)" by auto
  have "\<exists>s'. step3 s x = Some s' \<and> wf3 s' \<and> N s' = N s \<and>
          (\<forall>j < N s. logical3 s' j =
             (case x of Init v \<Rightarrow> v | Write i v \<Rightarrow> if j = i then v else logical3 s j
              | _ \<Rightarrow> logical3 s j))"
  proof (cases x)
    case (Init v)
    with wf show ?thesis by (simp add: init3_wf init3_N init3_logical)
  next
    case (Read i)
    let ?s1 = "s\<lparr>ctr := (ctr s)\<lparr>reads := reads (ctr s) + 1\<rparr>\<rparr>"
    have c: "wf3 ?s1" "N ?s1 = N s" "logical3 ?s1 = logical3 s"
      using wf by (simp_all add: wf3_def shape_def logical3_def fun_eq_iff)
    have "step3 s x = Some ?s1"
    proof (cases "i < N s")
      case True
      with Read read3_ok [OF wf True] show ?thesis by simp
    next
      case False
      with Read show ?thesis by (simp add: read3_def)
    qed
    with c Read show ?thesis by auto
  next
    case (Write i v)
    show ?thesis
    proof (cases "i < N s")
      case True
      with Write write3_ok [OF wf True, of v] show ?thesis by auto
    next
      case False
      let ?s1 = "s\<lparr>ctr := (ctr s)\<lparr>writes := writes (ctr s) + 1\<rparr>\<rparr>"
      have c: "wf3 ?s1" "N ?s1 = N s" "logical3 ?s1 = logical3 s"
        using wf by (simp_all add: wf3_def shape_def logical3_def fun_eq_iff)
      from False Write have "step3 s x = Some ?s1" by (simp add: write3_def)
      with c Write False show ?thesis by auto
    qed
  next
    case Enable
    have "logical3 (enable_verification s) = logical3 s"
      by (simp add: logical3_def enable_verification_def fun_eq_iff)
    with Enable wf show ?thesis by (simp add: enable3_wf N_enable)
  qed
  then obtain s' where s': "step3 s x = Some s'" "wf3 s'" "N s' = N s"
    "\<forall>j < N s. logical3 s' j =
       (case x of Init v \<Rightarrow> v | Write i v \<Rightarrow> if j = i then v else logical3 s j
        | _ \<Rightarrow> logical3 s j)" by auto
  have "agree3 s' d'" using s'(2,3,4) d'(2,3,4) lg
    by (auto simp: agree3_def split: op.splits)
  with s'(1) d'(1) show ?thesis by blast
qed

lemma run3_agree:
  "agree3 s d \<Longrightarrow> \<exists>s' d'. run3 s xs = Some s' \<and> run_sv d xs = Some d' \<and> agree3 s' d'"
proof (induction xs arbitrary: s d)
  case Nil
  then show ?case by simp
next
  case (Cons x xs)
  from step3_agree [OF Cons.prems, of x]
  obtain s1 d1 where 1: "step3 s x = Some s1" "step_sv d x = Some d1" "agree3 s1 d1" by auto
  from Cons.IH [OF 1(3)] 1(1,2) show ?case by simp
qed

lemma step4_agree:
  assumes a: "agree4 s d"
  shows "\<exists>s' d'. step4 s x = Some s' \<and> step_sv d x = Some d' \<and> agree4 s' d'"
proof -
  from a have wf: "wf4 s" and n: "sv_N d = N s" "length (data d) = N s"
    and lg: "\<forall>j < N s. logical4 s j = data d ! j" by (simp_all add: agree4_def)
  from step_sv_ok [OF n, of x]
  obtain d' where d': "step_sv d x = Some d'" "sv_N d' = N s" "length (data d') = N s"
    "\<forall>j < N s. data d' ! j =
       (case x of Init v \<Rightarrow> v | Write i v \<Rightarrow> if j = i then v else data d ! j
        | _ \<Rightarrow> data d ! j)" by auto
  have "\<exists>s'. step4 s x = Some s' \<and> wf4 s' \<and> N s' = N s \<and>
          (\<forall>j < N s. logical4 s' j =
             (case x of Init v \<Rightarrow> v | Write i v \<Rightarrow> if j = i then v else logical4 s j
              | _ \<Rightarrow> logical4 s j))"
  proof (cases x)
    case (Init v)
    with init4_ok [OF wf, of v] show ?thesis by auto
  next
    case (Read i)
    let ?s1 = "s\<lparr>ctr := (ctr s)\<lparr>reads := reads (ctr s) + 1\<rparr>\<rparr>"
    have c: "wf4 ?s1" "N ?s1 = N s" "logical4 ?s1 = logical4 s"
      using wf by (simp_all add: wf4_def shape_def logical4_def fun_eq_iff)
    have "step4 s x = Some ?s1"
    proof (cases "i < N s")
      case True
      with Read read4_ok [OF wf True] show ?thesis by simp
    next
      case False
      with Read show ?thesis by (simp add: read4_def)
    qed
    with c Read show ?thesis by auto
  next
    case (Write i v)
    show ?thesis
    proof (cases "i < N s")
      case True
      with Write write4_ok [OF wf True, of v] show ?thesis by auto
    next
      case False
      let ?s1 = "s\<lparr>ctr := (ctr s)\<lparr>writes := writes (ctr s) + 1\<rparr>\<rparr>"
      have c: "wf4 ?s1" "N ?s1 = N s" "logical4 ?s1 = logical4 s"
        using wf by (simp_all add: wf4_def shape_def logical4_def fun_eq_iff)
      from False Write have "step4 s x = Some ?s1" by (simp add: write4_def)
      with c Write False show ?thesis by auto
    qed
  next
    case Enable
    have "logical4 (enable_verification s) = logical4 s"
      by (simp add: logical4_def enable_verification_def fun_eq_iff)
    with Enable wf show ?thesis by (simp add: enable4_wf N_enable)
  qed
  then obtain s' where s': "step4 s x = Some s'" "wf4 s'" "N s' = N s"
    "\<forall>j < N s. logical4 s' j =
       (case x of Init v \<Rightarrow> v | Write i v \<Rightarrow> if j = i then v else logical4 s j
        | _ \<Rightarrow> logical4 s j)" by auto
  have "agree4 s' d'" using s'(2,3,4) d'(2,3,4) lg
    by (auto simp: agree4_def split: op.splits)
  with s'(1) d'(1) show ?thesis by blast
qed

lemma run4_agree:
  "agree4 s d \<Longrightarrow> \<exists>s' d'. run4 s xs = Some s' \<and> run_sv d xs = Some d' \<and> agree4 s' d'"
proof (induction xs arbitrary: s d)
  case Nil
  then show ?case by simp
next
  case (Cons x xs)
  from step4_agree [OF Cons.prems, of x]
  obtain s1 d1 where 1: "step4 s x = Some s1" "step_sv d x = Some d1" "agree4 s1 d1" by auto
  from Cons.IH [OF 1(3)] 1(1,2) show ?case by simp
qed

lemma sv_read_ok:
  "i < sv_N d \<Longrightarrow> length (data d) = sv_N d \<Longrightarrow>
   sv_read d i = Some (d\<lparr>sv_ctr := (sv_ctr d)\<lparr>reads := reads (sv_ctr d) + 1\<rparr>\<rparr>, Inr (data d ! i))"
  by (simp add: sv_read_def vec_get_def)

subsection \<open>The laws of the interface\<close>

text \<open>
  Claim C1: for InPlaceArraySec3 and InPlaceArraySec4, in every state reached from a
  successful construction by any sequence of init, read, write (and enable_verification)
  calls (no call of the sequence ends in an access outside a vector), for every index
  \<open>i < N\<close> and value \<open>v\<close>: write(i, v) succeeds and the read(i) that follows
  returns \<open>v\<close>.
\<close>

theorem C1_write_then_read:
  "(InPlaceArraySec3_new pf n = Inr s0 \<longrightarrow>
      (\<exists>s. run3 s0 xs = Some s \<and>
           (\<forall>i < N s. \<forall>v. \<exists>s1 s2. write3 s i v = Some (s1, Inr ()) \<and>
                                   read3 s1 i = Some (s2, Inr v)))) \<and>
   (InPlaceArraySec4_new pf m = Inr t0 \<longrightarrow>
      (\<exists>t. run4 t0 ys = Some t \<and>
           (\<forall>i < N t. \<forall>v. \<exists>t1 t2. write4 t i v = Some (t1, Inr ()) \<and>
                                   read4 t1 i = Some (t2, Inr v))))"
proof (intro conjI impI)
  assume "InPlaceArraySec3_new pf n = Inr s0"
  then have "wf3 s0" by (rule new3_wf)
  from run3_ok [OF this, of xs] obtain s where s: "run3 s0 xs = Some s" "wf3 s" by auto
  have "\<exists>s1 s2. write3 s i v = Some (s1, Inr ()) \<and> read3 s1 i = Some (s2, Inr v)"
    if i: "i < N s" for i v
  proof -
    from write3_ok [OF s(2) i, of v]
    obtain s1 where s1: "write3 s i v = Some (s1, Inr ())" "wf3 s1" "N s1 = N s"
      "\<forall>j < N s. logical3 s1 j = (if j = i then v else logical3 s j)" by auto
    have "i < N s1" using s1(3) i by simp
    from read3_ok [OF s1(2) this] s1(1,4) i show ?thesis by simp
  qed
  with s(1) show "\<exists>s. run3 s0 xs = Some s \<and>
      (\<forall>i < N s. \<forall>v. \<exists>s1 s2. write3 s i v = Some (s1, Inr ()) \<and> read3 s1 i = Some (s2, Inr v))"
    by blast
next
  assume "InPlaceArraySec4_new pf m = Inr t0"
  then have "wf4 t0" by (rule new4_wf)
  from run4_ok [OF this, of ys] obtain t where t: "run4 t0 ys = Some t" "wf4 t" by auto
  have "\<exists>t1 t2. write4 t i v = Some (t1, Inr ()) \<and> read4 t1 i = Some (t2, Inr v)"
    if i: "i < N t" for i v
  proof -
    from write4_ok [OF t(2) i, of v]
    obtain t1 where t1: "write4 t i v = Some (t1, Inr ())" "wf4 t1" "N t1 = N t"
      "\<forall>j < N t. logical4 t1 j = (if j = i then v else logical4 t j)" by auto
    have "i < N t1" using t1(3) i by simp
    from read4_ok [OF t1(2) this] t1(1,4) i show ?thesis by simp
  qed
  with t(1) show "\<exists>t. run4 t0 ys = Some t \<and>
      (\<forall>i < N t. \<forall>v. \<exists>t1 t2. write4 t i v = Some (t1, Inr ()) \<and> read4 t1 i = Some (t2, Inr v))"
    by blast
qed

theorem C1_write_then_read_witness:
  "InPlaceArraySec3_new ex_platform 4 = Inr (projr (InPlaceArraySec3_new ex_platform 4)) \<and>
   (\<exists>s s1 s2. run3 (projr (InPlaceArraySec3_new ex_platform 4)) [Init 0, Write 2 5] = Some s \<and>
      write3 s 0 9 = Some (s1, Inr ()) \<and> read3 s1 0 = Some (s2, Inr 9)) \<and>
   InPlaceArraySec4_new ex_platform 8 = Inr (projr (InPlaceArraySec4_new ex_platform 8)) \<and>
   (\<exists>t t1 t2. run4 (projr (InPlaceArraySec4_new ex_platform 8)) [Init 7, Write 7 1] = Some t \<and>
      write4 t 5 9 = Some (t1, Inr ()) \<and> read4 t1 5 = Some (t2, Inr 9))"
proof -
  let ?s0 = "projr (InPlaceArraySec3_new ex_platform 4)" and ?t0 = "projr (InPlaceArraySec4_new ex_platform 8)"
  have n3: "InPlaceArraySec3_new ex_platform 4 = Inr ?s0" by (simp add: InPlaceArraySec3_new_def vector_new_def ex_platform_def)
  have n4: "InPlaceArraySec4_new ex_platform 8 = Inr ?t0" by (simp add: InPlaceArraySec4_new_def vector_new_def ex_platform_def)
  have N3: "map_option N (run3 ?s0 [Init 0, Write 2 5]) = Some 4" unfolding new3_at_4 by code_simp
  have N4: "map_option N (run4 ?t0 [Init 7, Write 7 1]) = Some 8" unfolding new4_at_8 by code_simp
  from C1_write_then_read [of ex_platform 4 ?s0 "[Init 0, Write 2 5]" 8 ?t0 "[Init 7, Write 7 1]"] n3 n4
  obtain s t where
    s: "run3 ?s0 [Init 0, Write 2 5] = Some s"
      "\<forall>i < N s. \<forall>v. \<exists>s1 s2. write3 s i v = Some (s1, Inr ()) \<and> read3 s1 i = Some (s2, Inr v)"
    and t: "run4 ?t0 [Init 7, Write 7 1] = Some t"
      "\<forall>i < N t. \<forall>v. \<exists>t1 t2. write4 t i v = Some (t1, Inr ()) \<and> read4 t1 i = Some (t2, Inr v)"
    by auto
  have "N s = 4" using N3 unfolding s(1) by simp
  moreover have "N t = 8" using N4 unfolding t(1) by simp
  ultimately have "0 < N s" "5 < N t" by simp_all
  with s t n3 n4 show ?thesis by blast
qed

text \<open>
  Claim C2: for InPlaceArraySec3 and InPlaceArraySec4, in every reachable state, for all
  indices \<open>i, j < N\<close> with \<open>j \<noteq> i\<close> and every value \<open>v\<close>: read(j) after
  write(i, v) returns the value that read(j) returned before the write.
\<close>

theorem C2_write_frame:
  "(InPlaceArraySec3_new pf n = Inr s0 \<longrightarrow>
      (\<exists>s. run3 s0 xs = Some s \<and>
           (\<forall>i < N s. \<forall>j < N s. j \<noteq> i \<longrightarrow>
              (\<forall>v. \<exists>x s' s1 s2. read3 s j = Some (s', Inr x) \<and>
                     write3 s' i v = Some (s1, Inr ()) \<and> read3 s1 j = Some (s2, Inr x))))) \<and>
   (InPlaceArraySec4_new pf m = Inr t0 \<longrightarrow>
      (\<exists>t. run4 t0 ys = Some t \<and>
           (\<forall>i < N t. \<forall>j < N t. j \<noteq> i \<longrightarrow>
              (\<forall>v. \<exists>x t' t1 t2. read4 t j = Some (t', Inr x) \<and>
                     write4 t' i v = Some (t1, Inr ()) \<and> read4 t1 j = Some (t2, Inr x)))))"
proof (intro conjI impI)
  assume "InPlaceArraySec3_new pf n = Inr s0"
  then have "wf3 s0" by (rule new3_wf)
  from run3_ok [OF this, of xs] obtain s where s: "run3 s0 xs = Some s" "wf3 s" by auto
  have "\<exists>x s' s1 s2. read3 s j = Some (s', Inr x) \<and>
          write3 s' i v = Some (s1, Inr ()) \<and> read3 s1 j = Some (s2, Inr x)"
    if "i < N s" "j < N s" "j \<noteq> i" for i j v
    using sec3_write_then_read [OF s(2) that(1,2), of v] that(3) by auto
  with s(1) show "\<exists>s. run3 s0 xs = Some s \<and>
           (\<forall>i < N s. \<forall>j < N s. j \<noteq> i \<longrightarrow>
              (\<forall>v. \<exists>x s' s1 s2. read3 s j = Some (s', Inr x) \<and>
                     write3 s' i v = Some (s1, Inr ()) \<and> read3 s1 j = Some (s2, Inr x)))"
    by blast
next
  assume "InPlaceArraySec4_new pf m = Inr t0"
  then have "wf4 t0" by (rule new4_wf)
  from run4_ok [OF this, of ys] obtain t where t: "run4 t0 ys = Some t" "wf4 t" by auto
  have "\<exists>x t' t1 t2. read4 t j = Some (t', Inr x) \<and>
          write4 t' i v = Some (t1, Inr ()) \<and> read4 t1 j = Some (t2, Inr x)"
    if "i < N t" "j < N t" "j \<noteq> i" for i j v
    using sec4_write_then_read [OF t(2) that(1,2), of v] that(3) by auto
  with t(1) show "\<exists>t. run4 t0 ys = Some t \<and>
           (\<forall>i < N t. \<forall>j < N t. j \<noteq> i \<longrightarrow>
              (\<forall>v. \<exists>x t' t1 t2. read4 t j = Some (t', Inr x) \<and>
                     write4 t' i v = Some (t1, Inr ()) \<and> read4 t1 j = Some (t2, Inr x)))"
    by blast
qed

theorem C2_write_frame_witness:
  "InPlaceArraySec3_new ex_platform 4 = Inr (projr (InPlaceArraySec3_new ex_platform 4)) \<and>
   (\<exists>s x s' s1 s2. run3 (projr (InPlaceArraySec3_new ex_platform 4)) [Init 0, Write 2 5] = Some s \<and>
      read3 s 2 = Some (s', Inr x) \<and> write3 s' 0 9 = Some (s1, Inr ()) \<and>
      read3 s1 2 = Some (s2, Inr x)) \<and>
   InPlaceArraySec4_new ex_platform 8 = Inr (projr (InPlaceArraySec4_new ex_platform 8)) \<and>
   (\<exists>t x t' t1 t2. run4 (projr (InPlaceArraySec4_new ex_platform 8)) [Init 7, Write 7 1] = Some t \<and>
      read4 t 7 = Some (t', Inr x) \<and> write4 t' 5 9 = Some (t1, Inr ()) \<and>
      read4 t1 7 = Some (t2, Inr x))"
proof -
  let ?s0 = "projr (InPlaceArraySec3_new ex_platform 4)" and ?t0 = "projr (InPlaceArraySec4_new ex_platform 8)"
  have n3: "InPlaceArraySec3_new ex_platform 4 = Inr ?s0" by (simp add: InPlaceArraySec3_new_def vector_new_def ex_platform_def)
  have n4: "InPlaceArraySec4_new ex_platform 8 = Inr ?t0" by (simp add: InPlaceArraySec4_new_def vector_new_def ex_platform_def)
  have N3: "map_option N (run3 ?s0 [Init 0, Write 2 5]) = Some 4" unfolding new3_at_4 by code_simp
  have N4: "map_option N (run4 ?t0 [Init 7, Write 7 1]) = Some 8" unfolding new4_at_8 by code_simp
  from C2_write_frame [of ex_platform 4 ?s0 "[Init 0, Write 2 5]" 8 ?t0 "[Init 7, Write 7 1]"] n3 n4
  obtain s t where
    s: "run3 ?s0 [Init 0, Write 2 5] = Some s"
      "\<forall>i < N s. \<forall>j < N s. j \<noteq> i \<longrightarrow>
         (\<forall>v. \<exists>x s' s1 s2. read3 s j = Some (s', Inr x) \<and>
                write3 s' i v = Some (s1, Inr ()) \<and> read3 s1 j = Some (s2, Inr x))"
    and t: "run4 ?t0 [Init 7, Write 7 1] = Some t"
      "\<forall>i < N t. \<forall>j < N t. j \<noteq> i \<longrightarrow>
         (\<forall>v. \<exists>x t' t1 t2. read4 t j = Some (t', Inr x) \<and>
                write4 t' i v = Some (t1, Inr ()) \<and> read4 t1 j = Some (t2, Inr x))"
    by auto
  have "N s = 4" using N3 unfolding s(1) by simp
  then have "0 < N s" "2 < N s" "(2::nat) \<noteq> 0" by simp_all
  with s(2) have a: "\<exists>x s' s1 s2. read3 s 2 = Some (s', Inr x) \<and>
      write3 s' 0 9 = Some (s1, Inr ()) \<and> read3 s1 2 = Some (s2, Inr x)" by blast
  have "N t = 8" using N4 unfolding t(1) by simp
  then have "5 < N t" "7 < N t" "(7::nat) \<noteq> 5" by simp_all
  with t(2) have c: "\<exists>x t' t1 t2. read4 t 7 = Some (t', Inr x) \<and>
      write4 t' 5 9 = Some (t1, Inr ()) \<and> read4 t1 7 = Some (t2, Inr x)" by blast
  from a c s(1) t(1) n3 n4 show ?thesis by blast
qed

text \<open>
  Claim C4: for InPlaceArraySec3 and InPlaceArraySec4, from every reachable state,
  \<open>init(v); write(i, w); init(v2)\<close> succeeds and then read(j) returns \<open>v2\<close> for every
  \<open>j < N\<close> (in particular for \<open>j = i\<close>).
\<close>

theorem C4_init_wipes:
  "(InPlaceArraySec3_new pf n = Inr s0 \<longrightarrow>
      (\<exists>s. run3 s0 xs = Some s \<and>
           (\<forall>i < N s. \<forall>j < N s. \<forall>v w v2. \<exists>s1 s2.
              write3 (init3 s v) i w = Some (s1, Inr ()) \<and>
              read3 (init3 s1 v2) j = Some (s2, Inr v2)))) \<and>
   (InPlaceArraySec4_new pf m = Inr t0 \<longrightarrow>
      (\<exists>t. run4 t0 ys = Some t \<and>
           (\<forall>i < N t. \<forall>j < N t. \<forall>v w v2. \<exists>t1 t2 t3 t4.
              init4 t v = Some t1 \<and> write4 t1 i w = Some (t2, Inr ()) \<and>
              init4 t2 v2 = Some t3 \<and> read4 t3 j = Some (t4, Inr v2))))"
proof (intro conjI impI)
  assume "InPlaceArraySec3_new pf n = Inr s0"
  then have "wf3 s0" by (rule new3_wf)
  from run3_ok [OF this, of xs] obtain s where s: "run3 s0 xs = Some s" "wf3 s" by auto
  have "\<exists>s1 s2. write3 (init3 s v) i w = Some (s1, Inr ()) \<and>
          read3 (init3 s1 v2) j = Some (s2, Inr v2)"
    if ij: "i < N s" "j < N s" for i j v w v2
  proof -
    have w0: "wf3 (init3 s v)" "i < N (init3 s v)" using s(2) ij by (simp_all add: init3_wf init3_N)
    from write3_ok [OF w0, of w]
    obtain s1 where s1: "write3 (init3 s v) i w = Some (s1, Inr ())" "wf3 s1"
      "N s1 = N (init3 s v)" by auto
    have w1: "wf3 (init3 s1 v2)" "j < N (init3 s1 v2)"
      using s1(2,3) ij by (simp_all add: init3_wf init3_N)
    from read3_ok [OF w1] s1(1,2) show ?thesis by (simp add: init3_logical)
  qed
  with s(1) show "\<exists>s. run3 s0 xs = Some s \<and>
           (\<forall>i < N s. \<forall>j < N s. \<forall>v w v2. \<exists>s1 s2.
              write3 (init3 s v) i w = Some (s1, Inr ()) \<and>
              read3 (init3 s1 v2) j = Some (s2, Inr v2))"
    by blast
next
  assume "InPlaceArraySec4_new pf m = Inr t0"
  then have "wf4 t0" by (rule new4_wf)
  from run4_ok [OF this, of ys] obtain t where t: "run4 t0 ys = Some t" "wf4 t" by auto
  have "\<exists>t1 t2 t3 t4. init4 t v = Some t1 \<and> write4 t1 i w = Some (t2, Inr ()) \<and>
          init4 t2 v2 = Some t3 \<and> read4 t3 j = Some (t4, Inr v2)"
    if ij: "i < N t" "j < N t" for i j v w v2
  proof -
    from init4_ok [OF t(2), of v]
    obtain t1 where t1: "init4 t v = Some t1" "wf4 t1" "N t1 = N t" by auto
    have "i < N t1" using t1(3) ij by simp
    from write4_ok [OF t1(2) this, of w]
    obtain t2 where t2: "write4 t1 i w = Some (t2, Inr ())" "wf4 t2" "N t2 = N t1" by auto
    from init4_ok [OF t2(2), of v2]
    obtain t3 where t3: "init4 t2 v2 = Some t3" "wf4 t3" "N t3 = N t2"
      "\<forall>j. logical4 t3 j = v2" by auto
    have "j < N t3" using t3(3) t2(3) t1(3) ij by simp
    from read4_ok [OF t3(2) this] t1(1) t2(1) t3(1,4) show ?thesis by simp
  qed
  with t(1) show "\<exists>t. run4 t0 ys = Some t \<and>
           (\<forall>i < N t. \<forall>j < N t. \<forall>v w v2. \<exists>t1 t2 t3 t4.
              init4 t v = Some t1 \<and> write4 t1 i w = Some (t2, Inr ()) \<and>
              init4 t2 v2 = Some t3 \<and> read4 t3 j = Some (t4, Inr v2))"
    by blast
qed

theorem C4_init_wipes_witness:
  "InPlaceArraySec3_new ex_platform 4 = Inr (projr (InPlaceArraySec3_new ex_platform 4)) \<and>
   (\<exists>s s1 s2. run3 (projr (InPlaceArraySec3_new ex_platform 4)) [Init 0, Write 2 5] = Some s \<and>
      write3 (init3 s (- 1)) 0 10 = Some (s1, Inr ()) \<and>
      read3 (init3 s1 3) 0 = Some (s2, Inr 3)) \<and>
   InPlaceArraySec4_new ex_platform 8 = Inr (projr (InPlaceArraySec4_new ex_platform 8)) \<and>
   (\<exists>t t1 t2 t3 t4. run4 (projr (InPlaceArraySec4_new ex_platform 8)) [Init 7, Write 7 1] = Some t \<and>
      init4 t (- 1) = Some t1 \<and> write4 t1 7 20 = Some (t2, Inr ()) \<and>
      init4 t2 3 = Some t3 \<and> read4 t3 7 = Some (t4, Inr 3))"
proof -
  let ?s0 = "projr (InPlaceArraySec3_new ex_platform 4)" and ?t0 = "projr (InPlaceArraySec4_new ex_platform 8)"
  have n3: "InPlaceArraySec3_new ex_platform 4 = Inr ?s0" by (simp add: InPlaceArraySec3_new_def vector_new_def ex_platform_def)
  have n4: "InPlaceArraySec4_new ex_platform 8 = Inr ?t0" by (simp add: InPlaceArraySec4_new_def vector_new_def ex_platform_def)
  have N3: "map_option N (run3 ?s0 [Init 0, Write 2 5]) = Some 4" unfolding new3_at_4 by code_simp
  have N4: "map_option N (run4 ?t0 [Init 7, Write 7 1]) = Some 8" unfolding new4_at_8 by code_simp
  from C4_init_wipes [of ex_platform 4 ?s0 "[Init 0, Write 2 5]" 8 ?t0 "[Init 7, Write 7 1]"] n3 n4
  obtain s t where
    s: "run3 ?s0 [Init 0, Write 2 5] = Some s"
      "\<forall>i < N s. \<forall>j < N s. \<forall>v w v2. \<exists>s1 s2.
              write3 (init3 s v) i w = Some (s1, Inr ()) \<and>
              read3 (init3 s1 v2) j = Some (s2, Inr v2)"
    and t: "run4 ?t0 [Init 7, Write 7 1] = Some t"
      "\<forall>i < N t. \<forall>j < N t. \<forall>v w v2. \<exists>t1 t2 t3 t4.
              init4 t v = Some t1 \<and> write4 t1 i w = Some (t2, Inr ()) \<and>
              init4 t2 v2 = Some t3 \<and> read4 t3 j = Some (t4, Inr v2)"
    by auto
  have "N s = 4" using N3 unfolding s(1) by simp
  then have "0 < N s" by simp
  with s(2) have a: "\<exists>s1 s2. write3 (init3 s (- 1)) 0 10 = Some (s1, Inr ()) \<and>
      read3 (init3 s1 3) 0 = Some (s2, Inr 3)" by blast
  have "N t = 8" using N4 unfolding t(1) by simp
  then have "7 < N t" by simp
  with t(2) have c: "\<exists>t1 t2 t3 t4. init4 t (- 1) = Some t1 \<and> write4 t1 7 20 = Some (t2, Inr ()) \<and>
      init4 t2 3 = Some t3 \<and> read4 t3 7 = Some (t4, Inr 3)" by blast
  from a c s(1) t(1) n3 n4 show ?thesis by blast
qed

section \<open>Cells that chain bookkeeping leaves alone\<close>

lemma ex_chained4_reached:
  "run4 (projr (InPlaceArraySec4_new ex_platform 8)) [Init 7, Write 7 1] = Some ex_chained4"
  unfolding new4_at_8 by code_simp

lemma g_extend_recovered:
  assumes B: "1 < B" and ch: "g_chained B nb c bd bd = Some k"
  shows "fst (g_extend B nb st c bd iv) bd t = (if t < B - 1 then c k (t + 1) else c bd t)"
proof -
  have B0: "0 < B" using B by simp
  have k: "k < bd" using ch B0 by (auto simp: g_chained_iff cross_def)
  then have kb: "k < Suc bd" "bd < Suc bd" "k \<noteq> bd" by simp_all
  show ?thesis using ch kb
    by (simp add: g_extend_def g_sync_wca g_break_wca [OF B0] g_init_def g_copy_def)
qed

lemma g_sync_cell: "st \<longrightarrow> 2 < u \<Longrightarrow> g_sync st nb c bd iv z u = c z u"
  by (auto simp: g_sync_def put_apply)

lemma g_make_cell: "u \<noteq> 0 \<Longrightarrow> g_make B c x y z u = c z u"
  by (simp add: g_make_def put_apply)

lemma g_extend_last:
  assumes B: "1 < B" and st: "st \<longrightarrow> 3 < B" and y: "bd \<le> y"
    and ch: "g_chained B nb c bd y = Some k"
  shows "fst (g_extend B nb st c bd iv) y (B - 1) = c y (B - 1)"
proof -
  define u where "u = B - 1"
  have B0: "0 < B" and u: "u \<noteq> 0" "st \<longrightarrow> 2 < u" "\<not> u < B - 1"
    using B st by (auto simp: u_def)
  have "fst (g_extend B nb st c bd iv) y u = c y u"
  proof (cases "g_chained B nb c bd bd")
    case None
    with ch have "y \<noteq> bd" by auto
    with None show ?thesis
      by (simp add: g_extend_def g_sync_cell [OF u(2)] g_break_cell [OF u(1)] g_init_def)
  next
    case (Some j)
    then have "j < bd" using B0 by (auto simp: g_chained_iff cross_def)
    with y have "y \<noteq> j" by simp
    with Some u(3) show ?thesis
      by (simp add: g_extend_def g_sync_cell [OF u(2)] g_break_cell [OF u(1)] g_init_def
          g_copy_def)
  qed
  then show ?thesis by (simp add: u_def)
qed

lemma nth_view: "t < B \<Longrightarrow> xs ! (B * x + t) = view B xs x t"
  by (simp add: view_def)

lemma chained3_in_range:
  assumes "shape 2 s" "chainedTo_block3 s bi = Some k"
  shows "bi < N_blocks s"
proof (rule ccontr)
  assume "\<not> bi < N_blocks s"
  then have "\<not> 2 * bi < length (A s)" using assms(1) by (simp add: shape_def)
  then have "chainedTo_block3 s bi = None"
    by (simp add: chainedTo_block3_def getA_def vec_get_def)
  with assms(2) show False by simp
qed

lemma chained4_in_range:
  assumes "shape 4 s" "chainedTo_block4 s bi = Some k"
  shows "bi < N_blocks s"
proof (rule ccontr)
  assume "\<not> bi < N_blocks s"
  then have "\<not> 4 * bi < length (A s)" using assms(1) by (simp add: shape_def)
  then have "chainedTo_block4 s bi = None"
    by (simp add: chainedTo_block4_def getA_def vec_get_def first_of4)
  with assms(2) show False by simp
qed

lemma chained3_partner:
  assumes "shape 2 s" "chainedTo_block3 s bi = Some k" "0 \<le> k"
  shows "bi < N_blocks s \<and> g_chained 2 (N_blocks s) (view 2 (A s)) (b s) bi = Some (nat k)"
proof -
  have bi: "bi < N_blocks s" using chained3_in_range [OF assms(1,2)] .
  from chainedTo_block3_ref [OF assms(1) bi] assms(2,3) bi show ?thesis
    by (auto simp: partner_code_def split: option.splits)
qed

lemma chained4_partner:
  assumes "shape 4 s" "chainedTo_block4 s bi = Some k" "0 \<le> k"
  shows "bi < N_blocks s \<and> g_chained 4 (N_blocks s) (view 4 (A s)) (b s) bi = Some (nat k)"
proof -
  have bi: "bi < N_blocks s" using chained4_in_range [OF assms(1,2)] .
  from chainedTo_block4_ref [OF assms(1) bi] assms(2,3) bi show ?thesis
    by (auto simp: partner_code_def split: option.splits)
qed

lemma ex_written3_reached:
  "run3 (projr (InPlaceArraySec3_new ex_platform 4)) [Init 0, Write 2 5, Write 3 6] =
     Some ex_written3"
  unfolding new3_at_4 by code_simp

lemma sec3_cell_logical:
  assumes wf: "wf3 s" and bi: "b s \<le> bi" and ch: "chainedTo_block3 s bi = Some k" and k: "0 \<le> k"
  shows "first_of3 bi + 1 < N s \<and> logical3 s (first_of3 bi + 1) = A s ! (first_of3 bi + 1)"
proof -
  have sh: "shape 2 s" using wf by (simp add: wf3_def)
  from chained3_partner [OF sh ch k]
  have bn: "bi < N_blocks s"
    and g: "g_chained 2 (N_blocks s) (view 2 (A s)) (b s) bi = Some (nat k)" by simp_all
  have i: "2 * bi + 1 < N s" using sh bn by (simp add: shape_def)
  have "logical3 s (2 * bi + 1) = view 2 (A s) bi 1"
    using g bi by (simp add: logical3_def g_read_def)
  also have "\<dots> = A s ! (2 * bi + 1)" by (simp add: view_def)
  finally show ?thesis using i by simp
qed

lemma sec4_cell_logical:
  assumes wf: "wf4 s" and bi: "b s \<le> bi" and ch: "chainedTo_block4 s bi = Some k" and k: "0 \<le> k"
  shows "first_of4 bi + 3 < N s \<and> logical4 s (first_of4 bi + 3) = A s ! (first_of4 bi + 3)"
proof -
  have sh: "shape 4 s" using wf by (simp add: wf4_def)
  from chained4_partner [OF sh ch k]
  have bn: "bi < N_blocks s"
    and g: "g_chained 4 (N_blocks s) (view 4 (A s)) (b s) bi = Some (nat k)" by simp_all
  have i: "4 * bi + 3 < N s" using sh bn by (simp add: shape_def)
  have d: "(4 * bi + 3) div 4 = bi" "(4 * bi + 3) mod 4 = 3" by simp_all
  have "logical4 s (4 * bi + 3) = view 4 (A s) bi 3"
    using g bi unfolding logical4_def d by (simp add: g_read_def)
  also have "\<dots> = A s ! (4 * bi + 3)" by (simp add: view_def)
  finally show ?thesis using i by (simp add: first_of4)
qed

lemma extend3_reads:
  assumes wf: "wf3 s" and bd: "b s < N_blocks s"
  shows "\<exists>s' r. extend3 s = Some (s', r) \<and> N s' = N s \<and>
           (\<forall>j < N s. read_impl3 s' j = read_impl3 s j)"
proof -
  let ?c = "view 2 (A s)" and ?nb = "N_blocks s"
  let ?e = "g_extend 2 ?nb False ?c (b s) (initv s)"
  have sh: "shape 2 s" using wf by (simp add: wf3_def)
  from extend3_ref [OF sh bd]
  obtain s' where s': "extend3 s = Some (s', snd ?e)" "ref_to 2 s s' (fst ?e) (Suc (b s))"
    by auto
  have sh': "shape 2 s'" using ref_to_shape [OF sh s'(2)] .
  have fr: "N s' = N s" "N_blocks s' = ?nb" "initv s' = initv s" "b s' = Suc (b s)"
    "view 2 (A s') = fst ?e"
    using s'(2) by (simp_all add: ref_to_def same_frame_def)
  have post: "extend_post 2 ?nb ?c (b s) (initv s) (fst ?e) (snd ?e)"
    by (rule g_extend_post) (use bd in simp_all)
  have "read_impl3 s' j = read_impl3 s j" if j: "j < N s" for j
  proof -
    have y: "j div 2 < ?nb" using sh j by (simp add: shape_def)
    have "read_impl3 s' j =
        Some (g_read 2 ?nb (fst ?e) (Suc (b s)) (initv s) (j div 2) (j mod 2))"
      using read_impl3_ref [OF sh', of j] j fr by simp
    also have "\<dots> = Some (g_read 2 ?nb ?c (b s) (initv s) (j div 2) (j mod 2))"
      using post y by (simp add: extend_post_def)
    also have "\<dots> = read_impl3 s j" using read_impl3_ref [OF sh j] by simp
    finally show ?thesis .
  qed
  with s'(1) fr(1) show ?thesis by blast
qed

text \<open>
  Claim C6, as stated: when the boundary block \<open>s = b\<close> is chained on entry of extend,
  its partner \<open>bk\<close> lies in the unwritten area (\<open>bk \<ge> b\<close>). In the sec3 array of
  size 4 after \<open>init(0); write(2, 5)\<close> the boundary block 1 is chained and its partner is
  block 0, below \<open>b = 1\<close>.
\<close>

theorem C6_partner_in_written_area:
  "run3 (projr (InPlaceArraySec3_new ex_platform 4)) [Init 0, Write 2 5] = Some ex_chained3 \<and>
   chainedTo_block3 ex_chained3 (b ex_chained3) = Some 0 \<and> \<not> b ex_chained3 \<le> 0"
  unfolding new3_at_4 by code_simp

text \<open>
  Claim C6, amended: in InPlaceArraySec3::extend, when the boundary block \<open>s = b\<close> is
  chained on entry, its partner \<open>bk\<close> lies in the written area (\<open>bk < b\<close> on entry);
  the displaced first cell of \<open>s\<close> resides in \<open>bk\<close> at offset 1 (the read of
  \<open>first(s)\<close> returns \<open>A[first(bk)+1]\<close>) and position \<open>first(s)+1\<close> already holds
  the correct value (the read of \<open>first(s)+1\<close> returns \<open>A[first(s)+1]\<close>); extend
  succeeds, advances \<open>b\<close> by one, assigns \<open>A[first(s)] := A[first(bk)+1]\<close> and leaves
  \<open>A[first(s)+1]\<close> as it is, counts exactly one relocation and returns \<open>bk\<close>;
  afterwards every index reads as before, and both cells of \<open>s\<close> are read in place.
  In a state reached from a construction the correct values are those of the plain array
  (std_vector) after the same calls: \<open>A[first(s)+1]\<close> on entry, and both cells of
  \<open>s\<close> after extend, equal the cells of the plain array at these indices.
\<close>

theorem C6_extend_chained:
  "(wf3 s \<and> chainedTo_block3 s (b s) = Some k \<and> 0 \<le> k \<longrightarrow>
     nat k < b s \<and>
     read_impl3 s (first_of3 (b s)) = Some (A s ! (first_of3 (nat k) + 1)) \<and>
     read_impl3 s (first_of3 (b s) + 1) = Some (A s ! (first_of3 (b s) + 1)) \<and>
     (\<exists>s'. extend3 s = Some (s', nat k) \<and> b s' = b s + 1 \<and>
           A s' ! first_of3 (b s) = A s ! (first_of3 (nat k) + 1) \<and>
           A s' ! (first_of3 (b s) + 1) = A s ! (first_of3 (b s) + 1) \<and>
           relocations (ctr s') = relocations (ctr s) + 1 \<and>
           (\<forall>j < N s. read_impl3 s' j = read_impl3 s j) \<and>
           read_impl3 s' (first_of3 (b s)) = Some (A s' ! first_of3 (b s)) \<and>
           read_impl3 s' (first_of3 (b s) + 1) = Some (A s' ! (first_of3 (b s) + 1)))) \<and>
   (InPlaceArraySec3_new pf n = Inr s0 \<and> StdVectorWrapper_new pf' n = Inr d0 \<and>
    run3 s0 xs = Some s \<and> chainedTo_block3 s (b s) = Some k \<and> 0 \<le> k \<longrightarrow>
     (\<exists>d s'. run_sv d0 xs = Some d \<and> extend3 s = Some (s', nat k) \<and>
        A s ! (first_of3 (b s) + 1) = data d ! (first_of3 (b s) + 1) \<and>
        A s' ! first_of3 (b s) = data d ! first_of3 (b s) \<and>
        A s' ! (first_of3 (b s) + 1) = data d ! (first_of3 (b s) + 1)))"
proof -
  have main: "nat k < b s \<and>
     read_impl3 s (first_of3 (b s)) = Some (A s ! (first_of3 (nat k) + 1)) \<and>
     read_impl3 s (first_of3 (b s) + 1) = Some (A s ! (first_of3 (b s) + 1)) \<and>
     logical3 s (first_of3 (b s)) = A s ! (first_of3 (nat k) + 1) \<and>
     logical3 s (first_of3 (b s) + 1) = A s ! (first_of3 (b s) + 1) \<and>
     first_of3 (b s) + 1 < N s \<and>
     (\<exists>s'. extend3 s = Some (s', nat k) \<and> b s' = b s + 1 \<and>
           A s' ! first_of3 (b s) = A s ! (first_of3 (nat k) + 1) \<and>
           A s' ! (first_of3 (b s) + 1) = A s ! (first_of3 (b s) + 1) \<and>
           relocations (ctr s') = relocations (ctr s) + 1 \<and>
           (\<forall>j < N s. read_impl3 s' j = read_impl3 s j) \<and>
           read_impl3 s' (first_of3 (b s)) = Some (A s' ! first_of3 (b s)) \<and>
           read_impl3 s' (first_of3 (b s) + 1) = Some (A s' ! (first_of3 (b s) + 1)))"
    if wf: "wf3 s" and c: "chainedTo_block3 s (b s) = Some k" and k0: "0 \<le> k"
  proof -
    have sh: "shape 2 s" using wf by (simp add: wf3_def)
    let ?c = "view 2 (A s)" and ?nb = "N_blocks s"
    let ?e = "g_extend 2 ?nb False ?c (b s) (initv s)"
    from chained3_partner [OF sh c k0]
    have bd: "b s < ?nb" and ch: "g_chained 2 ?nb ?c (b s) (b s) = Some (nat k)" by simp_all
    have k: "nat k < b s" using ch by (auto simp: g_chained_iff cross_def)
    have i0: "2 * b s < N s" and i1: "2 * b s + 1 < N s" using sh bd by (simp_all add: shape_def)
    have l0: "logical3 s (2 * b s) = A s ! (2 * nat k + 1)"
      using ch by (simp add: logical3_def g_read_def view_def)
    have l1: "logical3 s (2 * b s + 1) = A s ! (2 * b s + 1)"
      using ch by (simp add: logical3_def g_read_def view_def)
    have r0: "read_impl3 s (2 * b s) = Some (A s ! (2 * nat k + 1))"
      using read_impl3_ref [OF sh i0] l0 by (simp add: logical3_def)
    have r1: "read_impl3 s (2 * b s + 1) = Some (A s ! (2 * b s + 1))"
      using read_impl3_ref [OF sh i1] l1 by (simp add: logical3_def)
    from extend3_ref [OF sh bd] ch
    obtain s' where s': "extend3 s = Some (s', snd ?e)" "ref_to 2 s s' (fst ?e) (Suc (b s))"
      "relocations (ctr s') = relocations (ctr s) + 1" by auto
    have r: "snd ?e = nat k" using ch by (simp add: g_extend_def)
    have v: "view 2 (A s') = fst ?e" "b s' = Suc (b s)" using s'(2) by (simp_all add: ref_to_def)
    have "A s' ! (2 * b s + 0) = view 2 (A s') (b s) 0" by (rule nth_view) simp
    also have "\<dots> = ?c (nat k) 1" unfolding v(1) by (simp add: g_extend_recovered [OF _ ch])
    also have "\<dots> = A s ! (2 * nat k + 1)" by (rule nth_view [symmetric]) simp
    finally have c0: "A s' ! (2 * b s) = A s ! (2 * nat k + 1)" by simp
    have "A s' ! (2 * b s + 1) = view 2 (A s') (b s) 1" by (rule nth_view) simp
    also have "\<dots> = ?c (b s) 1" unfolding v(1) by (simp add: g_extend_recovered [OF _ ch])
    also have "\<dots> = A s ! (2 * b s + 1)" by (rule nth_view [symmetric]) simp
    finally have c1: "A s' ! (2 * b s + 1) = A s ! (2 * b s + 1)" by simp
    from extend3_reads [OF wf bd] s'(1)
    have rd: "\<forall>j < N s. read_impl3 s' j = read_impl3 s j" by auto
    have a0: "read_impl3 s' (2 * b s) = Some (A s' ! (2 * b s))"
      using rd i0 r0 c0 by simp
    have a1: "read_impl3 s' (2 * b s + 1) = Some (A s' ! (2 * b s + 1))"
      using rd i1 r1 c1 by simp
    from k r0 r1 l0 l1 i1 s'(1,3) r v(2) c0 c1 rd a0 a1 show ?thesis by simp
  qed
  have reach: "\<exists>d s'. run_sv d0 xs = Some d \<and> extend3 s = Some (s', nat k) \<and>
        A s ! (first_of3 (b s) + 1) = data d ! (first_of3 (b s) + 1) \<and>
        A s' ! first_of3 (b s) = data d ! first_of3 (b s) \<and>
        A s' ! (first_of3 (b s) + 1) = data d ! (first_of3 (b s) + 1)"
    if n: "InPlaceArraySec3_new pf n = Inr s0" and nd: "StdVectorWrapper_new pf' n = Inr d0"
      and run: "run3 s0 xs = Some s"
      and c: "chainedTo_block3 s (b s) = Some k" and k0: "0 \<le> k"
  proof -
    have a0: "agree3 s0 d0" using n nd by (rule new3_agree)
    from run3_agree [OF a0, of xs] run
    obtain d where d: "run_sv d0 xs = Some d" "agree3 s d" by auto
    have wf: "wf3 s" and lg: "\<forall>j < N s. logical3 s j = data d ! j"
      using d(2) by (simp_all add: agree3_def)
    from main [OF wf c k0]
    obtain s' where m: "logical3 s (first_of3 (b s)) = A s ! (first_of3 (nat k) + 1)"
      "logical3 s (first_of3 (b s) + 1) = A s ! (first_of3 (b s) + 1)"
      "first_of3 (b s) + 1 < N s"
      "extend3 s = Some (s', nat k)"
      "A s' ! first_of3 (b s) = A s ! (first_of3 (nat k) + 1)"
      "A s' ! (first_of3 (b s) + 1) = A s ! (first_of3 (b s) + 1)" by blast
    have "first_of3 (b s) < N s" using m(3) by simp
    with lg m(3) have "logical3 s (first_of3 (b s)) = data d ! first_of3 (b s)"
      "logical3 s (first_of3 (b s) + 1) = data d ! (first_of3 (b s) + 1)" by blast+
    with m have "A s ! (first_of3 (b s) + 1) = data d ! (first_of3 (b s) + 1)"
      "A s' ! first_of3 (b s) = data d ! first_of3 (b s)"
      "A s' ! (first_of3 (b s) + 1) = data d ! (first_of3 (b s) + 1)" by simp_all
    with d(1) m(4) show ?thesis by blast
  qed
  show ?thesis
  proof (intro conjI impI)
    assume a: "wf3 s \<and> chainedTo_block3 s (b s) = Some k \<and> 0 \<le> k"
    then have h: "wf3 s" "chainedTo_block3 s (b s) = Some k" "0 \<le> k" by simp_all
    from main [OF h] show "nat k < b s"
      and "read_impl3 s (first_of3 (b s)) = Some (A s ! (first_of3 (nat k) + 1))"
      and "read_impl3 s (first_of3 (b s) + 1) = Some (A s ! (first_of3 (b s) + 1))"
      and "\<exists>s'. extend3 s = Some (s', nat k) \<and> b s' = b s + 1 \<and>
           A s' ! first_of3 (b s) = A s ! (first_of3 (nat k) + 1) \<and>
           A s' ! (first_of3 (b s) + 1) = A s ! (first_of3 (b s) + 1) \<and>
           relocations (ctr s') = relocations (ctr s) + 1 \<and>
           (\<forall>j < N s. read_impl3 s' j = read_impl3 s j) \<and>
           read_impl3 s' (first_of3 (b s)) = Some (A s' ! first_of3 (b s)) \<and>
           read_impl3 s' (first_of3 (b s) + 1) = Some (A s' ! (first_of3 (b s) + 1))"
      by blast+
  next
    assume "InPlaceArraySec3_new pf n = Inr s0 \<and> StdVectorWrapper_new pf' n = Inr d0 \<and>
      run3 s0 xs = Some s \<and> chainedTo_block3 s (b s) = Some k \<and> 0 \<le> k"
    then have h: "InPlaceArraySec3_new pf n = Inr s0" "StdVectorWrapper_new pf' n = Inr d0"
      "run3 s0 xs = Some s" "chainedTo_block3 s (b s) = Some k" "0 \<le> k" by simp_all
    from reach [OF h] show "\<exists>d s'. run_sv d0 xs = Some d \<and> extend3 s = Some (s', nat k) \<and>
        A s ! (first_of3 (b s) + 1) = data d ! (first_of3 (b s) + 1) \<and>
        A s' ! first_of3 (b s) = data d ! first_of3 (b s) \<and>
        A s' ! (first_of3 (b s) + 1) = data d ! (first_of3 (b s) + 1)" .
  qed
qed

theorem C6_extend_chained_witness:
  "wf3 ex_written3 \<and> chainedTo_block3 ex_written3 (b ex_written3) = Some 0 \<and> (0::int) \<le> 0 \<and>
   InPlaceArraySec3_new ex_platform 4 = Inr (projr (InPlaceArraySec3_new ex_platform 4)) \<and>
   run3 (projr (InPlaceArraySec3_new ex_platform 4)) [Init 0, Write 2 5, Write 3 6] =
     Some ex_written3 \<and>
   A ex_written3 ! (first_of3 (nat 0) + 1) = 5 \<and>
   A ex_written3 ! (first_of3 (b ex_written3) + 1) = 6 \<and>
   nat 0 < b ex_written3 \<and>
   read_impl3 ex_written3 (first_of3 (b ex_written3)) =
     Some (A ex_written3 ! (first_of3 (nat 0) + 1)) \<and>
   read_impl3 ex_written3 (first_of3 (b ex_written3) + 1) =
     Some (A ex_written3 ! (first_of3 (b ex_written3) + 1)) \<and>
   (\<exists>s'. extend3 ex_written3 = Some (s', nat 0) \<and> b s' = b ex_written3 + 1 \<and>
         A s' ! first_of3 (b ex_written3) = A ex_written3 ! (first_of3 (nat 0) + 1) \<and>
         A s' ! (first_of3 (b ex_written3) + 1) = A ex_written3 ! (first_of3 (b ex_written3) + 1) \<and>
         relocations (ctr s') = relocations (ctr ex_written3) + 1 \<and>
         (\<forall>j < N ex_written3. read_impl3 s' j = read_impl3 ex_written3 j) \<and>
         read_impl3 s' (first_of3 (b ex_written3)) = Some (A s' ! first_of3 (b ex_written3)) \<and>
         read_impl3 s' (first_of3 (b ex_written3) + 1) =
           Some (A s' ! (first_of3 (b ex_written3) + 1))) \<and>
   StdVectorWrapper_new ex_platform 4 = Inr (projr (StdVectorWrapper_new ex_platform 4)) \<and>
   (\<exists>d s'. run_sv (projr (StdVectorWrapper_new ex_platform 4)) [Init 0, Write 2 5, Write 3 6] =
           Some d \<and>
         extend3 ex_written3 = Some (s', nat 0) \<and>
         A ex_written3 ! (first_of3 (b ex_written3) + 1) =
           data d ! (first_of3 (b ex_written3) + 1) \<and>
         A s' ! first_of3 (b ex_written3) = data d ! first_of3 (b ex_written3) \<and>
         A s' ! (first_of3 (b ex_written3) + 1) = data d ! (first_of3 (b ex_written3) + 1))"
proof -
  have w: "wf3 ex_written3" by (simp add: wf3_def shape_def ex_written3_def)
  have c: "chainedTo_block3 ex_written3 (b ex_written3) = Some 0" by code_simp
  have n: "InPlaceArraySec3_new ex_platform 4 = Inr (projr (InPlaceArraySec3_new ex_platform 4))"
    by (simp add: InPlaceArraySec3_new_def vector_new_def ex_platform_def)
  have v: "A ex_written3 ! (first_of3 (nat 0) + 1) = 5"
    "A ex_written3 ! (first_of3 (b ex_written3) + 1) = 6"
    by (simp_all add: ex_written3_def)
  have nd: "StdVectorWrapper_new ex_platform 4 = Inr (projr (StdVectorWrapper_new ex_platform 4))"
    by (simp add: StdVectorWrapper_new_def vector_new_def ex_platform_def)
  note t = C6_extend_chained [where s = ex_written3 and k = 0 and pf = ex_platform and n = 4
      and pf' = ex_platform and ?d0.0 = "projr (StdVectorWrapper_new ex_platform 4)"
      and ?s0.0 = "projr (InPlaceArraySec3_new ex_platform 4)"
      and xs = "[Init 0, Write 2 5, Write 3 6]"]
  from t w c have 1: "nat 0 < b ex_written3 \<and>
   read_impl3 ex_written3 (first_of3 (b ex_written3)) =
     Some (A ex_written3 ! (first_of3 (nat 0) + 1)) \<and>
   read_impl3 ex_written3 (first_of3 (b ex_written3) + 1) =
     Some (A ex_written3 ! (first_of3 (b ex_written3) + 1)) \<and>
   (\<exists>s'. extend3 ex_written3 = Some (s', nat 0) \<and> b s' = b ex_written3 + 1 \<and>
         A s' ! first_of3 (b ex_written3) = A ex_written3 ! (first_of3 (nat 0) + 1) \<and>
         A s' ! (first_of3 (b ex_written3) + 1) = A ex_written3 ! (first_of3 (b ex_written3) + 1) \<and>
         relocations (ctr s') = relocations (ctr ex_written3) + 1 \<and>
         (\<forall>j < N ex_written3. read_impl3 s' j = read_impl3 ex_written3 j) \<and>
         read_impl3 s' (first_of3 (b ex_written3)) = Some (A s' ! first_of3 (b ex_written3)) \<and>
         read_impl3 s' (first_of3 (b ex_written3) + 1) =
           Some (A s' ! (first_of3 (b ex_written3) + 1)))"
    by blast
  from t n nd ex_written3_reached c have 2:
    "\<exists>d s'. run_sv (projr (StdVectorWrapper_new ex_platform 4)) [Init 0, Write 2 5, Write 3 6] =
           Some d \<and>
         extend3 ex_written3 = Some (s', nat 0) \<and>
         A ex_written3 ! (first_of3 (b ex_written3) + 1) =
           data d ! (first_of3 (b ex_written3) + 1) \<and>
         A s' ! first_of3 (b ex_written3) = data d ! first_of3 (b ex_written3) \<and>
         A s' ! (first_of3 (b ex_written3) + 1) = data d ! (first_of3 (b ex_written3) + 1)"
    by blast
  from w c n nd ex_written3_reached v 1 2 show ?thesis by blast
qed

lemma sec3_last_cell_kept:
  assumes wf: "wf3 s" and bi: "b s \<le> bi" and ch: "chainedTo_block3 s bi = Some k" and k: "0 \<le> k"
  shows "(\<forall>x y. x < N_blocks s \<and> y < N_blocks s \<longrightarrow>
            (\<exists>s'. makeChain3 s x y = Some s' \<and>
                  A s' ! (first_of3 bi + 1) = A s ! (first_of3 bi + 1))) \<and>
         (\<forall>x < N_blocks s.
            \<exists>s'. breakChain3 s x = Some s' \<and>
                 A s' ! (first_of3 bi + 1) = A s ! (first_of3 bi + 1)) \<and>
         (\<exists>s' r. extend3 s = Some (s', r) \<and>
                 A s' ! (first_of3 bi + 1) = A s ! (first_of3 bi + 1)) \<and>
         read_impl3 s (first_of3 bi + 1) = Some (A s ! (first_of3 bi + 1))"
proof -
  let ?c = "view 2 (A s)" and ?nb = "N_blocks s"
  have sh: "shape 2 s" using wf by (simp add: wf3_def)
  from chained3_partner [OF sh ch k]
  have bn: "bi < ?nb" and g: "g_chained 2 ?nb ?c (b s) bi = Some (nat k)" by simp_all
  have bd: "b s < ?nb" using bi bn by simp
  have cell: "A s' ! (first_of3 bi + 1) = view 2 (A s') bi 1" for s' :: InPlaceArraySec3
    using nth_view [of 1 2 "A s'" bi] by simp
  have mk: "\<exists>s'. makeChain3 s x y = Some s' \<and> A s' ! (first_of3 bi + 1) = A s ! (first_of3 bi + 1)"
    if "x < ?nb" "y < ?nb" for x y
  proof -
    from makeChain3_ref [OF sh that]
    obtain s' where s': "makeChain3 s x y = Some s'" "view 2 (A s') = g_make 2 ?c x y"
      by (auto simp: ref_to_def)
    then show ?thesis unfolding cell by (simp add: g_make_cell)
  qed
  have br: "\<exists>s'. breakChain3 s x = Some s' \<and> A s' ! (first_of3 bi + 1) = A s ! (first_of3 bi + 1)"
    if "x < ?nb" for x
  proof -
    from breakChain3_ref [OF sh that]
    obtain s' where s': "breakChain3 s x = Some s'"
      "view 2 (A s') = g_break 2 ?nb ?c (b s) x"
      by (auto simp: ref_to_def)
    then show ?thesis unfolding cell by (simp add: g_break_cell)
  qed
  have ex: "\<exists>s' r. extend3 s = Some (s', r) \<and>
                 A s' ! (first_of3 bi + 1) = A s ! (first_of3 bi + 1)"
  proof -
    from extend3_ref [OF sh bd]
    obtain s' r where s': "extend3 s = Some (s', r)"
      "view 2 (A s') = fst (g_extend 2 ?nb False ?c (b s) (initv s))"
      by (auto simp: ref_to_def)
    have "view 2 (A s') bi (2 - 1) = ?c bi (2 - 1)"
      unfolding s'(2) by (rule g_extend_last [OF _ _ bi g]) simp_all
    with s'(1) show ?thesis unfolding cell by auto
  qed
  have rd: "read_impl3 s (first_of3 bi + 1) = Some (A s ! (first_of3 bi + 1))"
  proof -
    have i: "2 * bi + 1 < N s" using sh bn by (simp add: shape_def)
    from read_impl3_ref [OF sh i] g bi show ?thesis
      unfolding cell by (simp add: g_read_def)
  qed
  from mk br ex rd show ?thesis by blast
qed

lemma sec4_last_cell_kept:
  assumes wf: "wf4 s" and bi: "b s \<le> bi" and ch: "chainedTo_block4 s bi = Some k" and k: "0 \<le> k"
  shows "(\<forall>x y. x < N_blocks s \<and> y < N_blocks s \<longrightarrow>
            (\<exists>s'. makeChain4 s x y = Some s' \<and>
                  A s' ! (first_of4 bi + 3) = A s ! (first_of4 bi + 3))) \<and>
         (\<forall>x < N_blocks s.
            \<exists>s'. breakChain4 s x = Some s' \<and>
                 A s' ! (first_of4 bi + 3) = A s ! (first_of4 bi + 3)) \<and>
         (\<exists>s' r. extend4 s = Some (s', r) \<and>
                 A s' ! (first_of4 bi + 3) = A s ! (first_of4 bi + 3)) \<and>
         read_impl4 s (first_of4 bi + 3) = Some (A s ! (first_of4 bi + 3))"
proof -
  let ?c = "view 4 (A s)" and ?nb = "N_blocks s"
  have sh: "shape 4 s" using wf by (simp add: wf4_def)
  from chained4_partner [OF sh ch k]
  have bn: "bi < ?nb" and g: "g_chained 4 ?nb ?c (b s) bi = Some (nat k)" by simp_all
  have bd: "b s < ?nb" using bi bn by simp
  have cell: "A s' ! (first_of4 bi + 3) = view 4 (A s') bi 3" for s' :: InPlaceArraySec4
    using nth_view [of 3 4 "A s'" bi] by (simp add: first_of4)
  have mk: "\<exists>s'. makeChain4 s x y = Some s' \<and> A s' ! (first_of4 bi + 3) = A s ! (first_of4 bi + 3)"
    if "x < ?nb" "y < ?nb" for x y
  proof -
    from makeChain4_ref [OF sh that]
    obtain s' where s': "makeChain4 s x y = Some s'" "view 4 (A s') = g_make 4 ?c x y"
      by (auto simp: ref_to_def)
    then show ?thesis unfolding cell by (simp add: g_make_cell)
  qed
  have br: "\<exists>s'. breakChain4 s x = Some s' \<and> A s' ! (first_of4 bi + 3) = A s ! (first_of4 bi + 3)"
    if "x < ?nb" for x
  proof -
    from breakChain4_ref [OF sh that]
    obtain s' where s': "breakChain4 s x = Some s'"
      "view 4 (A s') = g_break 4 ?nb ?c (b s) x"
      by (auto simp: ref_to_def)
    then show ?thesis unfolding cell by (simp add: g_break_cell)
  qed
  have ex: "\<exists>s' r. extend4 s = Some (s', r) \<and>
                 A s' ! (first_of4 bi + 3) = A s ! (first_of4 bi + 3)"
  proof -
    from extend4_ref [OF sh bd]
    obtain s' r where s': "extend4 s = Some (s', r)"
      "view 4 (A s') = fst (g_extend 4 ?nb True ?c (b s) (initv s))"
      by (auto simp: ref_to_def)
    have "view 4 (A s') bi (4 - 1) = ?c bi (4 - 1)"
      unfolding s'(2) by (rule g_extend_last [OF _ _ bi g]) simp_all
    with s'(1) show ?thesis unfolding cell by auto
  qed
  have rd: "read_impl4 s (first_of4 bi + 3) = Some (A s ! (first_of4 bi + 3))"
  proof -
    have i: "4 * bi + 3 < N s" using sh bn by (simp add: shape_def)
    have fl: "flag s = (?nb \<le> b s)" "b s \<le> ?nb" using wf by (simp_all add: wf4_def)
    from read_impl4_ref [OF sh fl i] g bi show ?thesis
      unfolding cell by (simp add: g_read_def first_of4)
  qed
  from mk br ex rd show ?thesis by blast
qed

text \<open>
  Claim C5: in every reachable state of InPlaceArraySec3, if a block \<open>bi \<ge> b\<close> is
  chained, then none of makeChain, breakChain (on any blocks) and extend changes the cell at
  index \<open>first(bi)+1\<close>; the cell holds the logical value of that index, which is the
  cell of the plain array (std_vector) at that index after the same calls; and the read of
  that index returns \<open>A[first(bi)+1]\<close>, as the read of the plain array does. Likewise
  for InPlaceArraySec4 and the cell at offset 3, index \<open>first(bi)+3\<close>.
\<close>

theorem C5_last_cell_in_place:
  "(InPlaceArraySec3_new pf n = Inr s0 \<and> StdVectorWrapper_new pf' n = Inr d0 \<longrightarrow>
      (\<exists>s d. run3 s0 xs = Some s \<and> run_sv d0 xs = Some d \<and>
         (\<forall>bi k. b s \<le> bi \<and> chainedTo_block3 s bi = Some k \<and> 0 \<le> k \<longrightarrow>
            (\<forall>x y. x < N_blocks s \<and> y < N_blocks s \<longrightarrow>
               (\<exists>s'. makeChain3 s x y = Some s' \<and>
                     A s' ! (first_of3 bi + 1) = A s ! (first_of3 bi + 1))) \<and>
            (\<forall>x < N_blocks s.
               \<exists>s'. breakChain3 s x = Some s' \<and>
                    A s' ! (first_of3 bi + 1) = A s ! (first_of3 bi + 1)) \<and>
            (\<exists>s' r. extend3 s = Some (s', r) \<and>
                    A s' ! (first_of3 bi + 1) = A s ! (first_of3 bi + 1)) \<and>
            A s ! (first_of3 bi + 1) = data d ! (first_of3 bi + 1) \<and>
            read3 s (first_of3 bi + 1) =
              Some (s\<lparr>ctr := (ctr s)\<lparr>reads := reads (ctr s) + 1\<rparr>\<rparr>,
                    Inr (A s ! (first_of3 bi + 1))) \<and>
            sv_read d (first_of3 bi + 1) =
              Some (d\<lparr>sv_ctr := (sv_ctr d)\<lparr>reads := reads (sv_ctr d) + 1\<rparr>\<rparr>,
                    Inr (A s ! (first_of3 bi + 1)))))) \<and>
   (InPlaceArraySec4_new pf m = Inr t0 \<and> StdVectorWrapper_new pf' m = Inr e0 \<longrightarrow>
      (\<exists>t e. run4 t0 ys = Some t \<and> run_sv e0 ys = Some e \<and>
         (\<forall>bi k. b t \<le> bi \<and> chainedTo_block4 t bi = Some k \<and> 0 \<le> k \<longrightarrow>
            (\<forall>x y. x < N_blocks t \<and> y < N_blocks t \<longrightarrow>
               (\<exists>t'. makeChain4 t x y = Some t' \<and>
                     A t' ! (first_of4 bi + 3) = A t ! (first_of4 bi + 3))) \<and>
            (\<forall>x < N_blocks t.
               \<exists>t'. breakChain4 t x = Some t' \<and>
                    A t' ! (first_of4 bi + 3) = A t ! (first_of4 bi + 3)) \<and>
            (\<exists>t' r. extend4 t = Some (t', r) \<and>
                    A t' ! (first_of4 bi + 3) = A t ! (first_of4 bi + 3)) \<and>
            A t ! (first_of4 bi + 3) = data e ! (first_of4 bi + 3) \<and>
            read4 t (first_of4 bi + 3) =
              Some (t\<lparr>ctr := (ctr t)\<lparr>reads := reads (ctr t) + 1\<rparr>\<rparr>,
                    Inr (A t ! (first_of4 bi + 3))) \<and>
            sv_read e (first_of4 bi + 3) =
              Some (e\<lparr>sv_ctr := (sv_ctr e)\<lparr>reads := reads (sv_ctr e) + 1\<rparr>\<rparr>,
                    Inr (A t ! (first_of4 bi + 3))))))"
proof (intro conjI impI)
  assume "InPlaceArraySec3_new pf n = Inr s0 \<and> StdVectorWrapper_new pf' n = Inr d0"
  then have a0: "agree3 s0 d0" by (simp add: new3_agree [of pf n s0 pf' d0])
  from run3_agree [OF a0, of xs]
  obtain s d where s: "run3 s0 xs = Some s" "run_sv d0 xs = Some d" "agree3 s d" by auto
  have wf: "wf3 s" and sv: "sv_N d = N s" "length (data d) = N s"
    and lg: "\<forall>j < N s. logical3 s j = data d ! j"
    using s(3) by (simp_all add: agree3_def)
  have "(\<forall>x y. x < N_blocks s \<and> y < N_blocks s \<longrightarrow>
               (\<exists>s'. makeChain3 s x y = Some s' \<and>
                     A s' ! (first_of3 bi + 1) = A s ! (first_of3 bi + 1))) \<and>
            (\<forall>x < N_blocks s.
               \<exists>s'. breakChain3 s x = Some s' \<and>
                    A s' ! (first_of3 bi + 1) = A s ! (first_of3 bi + 1)) \<and>
            (\<exists>s' r. extend3 s = Some (s', r) \<and>
                    A s' ! (first_of3 bi + 1) = A s ! (first_of3 bi + 1)) \<and>
            A s ! (first_of3 bi + 1) = data d ! (first_of3 bi + 1) \<and>
            read3 s (first_of3 bi + 1) =
              Some (s\<lparr>ctr := (ctr s)\<lparr>reads := reads (ctr s) + 1\<rparr>\<rparr>,
                    Inr (A s ! (first_of3 bi + 1))) \<and>
            sv_read d (first_of3 bi + 1) =
              Some (d\<lparr>sv_ctr := (sv_ctr d)\<lparr>reads := reads (sv_ctr d) + 1\<rparr>\<rparr>,
                    Inr (A s ! (first_of3 bi + 1)))"
    if h: "b s \<le> bi \<and> chainedTo_block3 s bi = Some k \<and> 0 \<le> k" for bi k
  proof -
    from h have h': "b s \<le> bi" "chainedTo_block3 s bi = Some k" "0 \<le> k" by simp_all
    note kept = sec3_last_cell_kept [OF wf h']
    from sec3_cell_logical [OF wf h']
    have i: "first_of3 bi + 1 < N s"
      and l: "logical3 s (first_of3 bi + 1) = A s ! (first_of3 bi + 1)" by simp_all
    have c: "A s ! (first_of3 bi + 1) = data d ! (first_of3 bi + 1)" using lg i l by simp
    have r: "read3 s (first_of3 bi + 1) =
              Some (s\<lparr>ctr := (ctr s)\<lparr>reads := reads (ctr s) + 1\<rparr>\<rparr>,
                    Inr (A s ! (first_of3 bi + 1)))"
      using read3_ok [OF wf i] l by simp
    have r': "sv_read d (first_of3 bi + 1) =
              Some (d\<lparr>sv_ctr := (sv_ctr d)\<lparr>reads := reads (sv_ctr d) + 1\<rparr>\<rparr>,
                    Inr (A s ! (first_of3 bi + 1)))"
      using sv_read_ok [of "first_of3 bi + 1" d] i sv c by simp
    from kept c r r' show ?thesis by blast
  qed
  with s(1,2) show "\<exists>s d. run3 s0 xs = Some s \<and> run_sv d0 xs = Some d \<and>
         (\<forall>bi k. b s \<le> bi \<and> chainedTo_block3 s bi = Some k \<and> 0 \<le> k \<longrightarrow>
            (\<forall>x y. x < N_blocks s \<and> y < N_blocks s \<longrightarrow>
               (\<exists>s'. makeChain3 s x y = Some s' \<and>
                     A s' ! (first_of3 bi + 1) = A s ! (first_of3 bi + 1))) \<and>
            (\<forall>x < N_blocks s.
               \<exists>s'. breakChain3 s x = Some s' \<and>
                    A s' ! (first_of3 bi + 1) = A s ! (first_of3 bi + 1)) \<and>
            (\<exists>s' r. extend3 s = Some (s', r) \<and>
                    A s' ! (first_of3 bi + 1) = A s ! (first_of3 bi + 1)) \<and>
            A s ! (first_of3 bi + 1) = data d ! (first_of3 bi + 1) \<and>
            read3 s (first_of3 bi + 1) =
              Some (s\<lparr>ctr := (ctr s)\<lparr>reads := reads (ctr s) + 1\<rparr>\<rparr>,
                    Inr (A s ! (first_of3 bi + 1))) \<and>
            sv_read d (first_of3 bi + 1) =
              Some (d\<lparr>sv_ctr := (sv_ctr d)\<lparr>reads := reads (sv_ctr d) + 1\<rparr>\<rparr>,
                    Inr (A s ! (first_of3 bi + 1))))"
    by blast
next
  assume "InPlaceArraySec4_new pf m = Inr t0 \<and> StdVectorWrapper_new pf' m = Inr e0"
  then have a0: "agree4 t0 e0" by (simp add: new4_agree [of pf m t0 pf' e0])
  from run4_agree [OF a0, of ys]
  obtain t e where t: "run4 t0 ys = Some t" "run_sv e0 ys = Some e" "agree4 t e" by auto
  have wf: "wf4 t" and sv: "sv_N e = N t" "length (data e) = N t"
    and lg: "\<forall>j < N t. logical4 t j = data e ! j"
    using t(3) by (simp_all add: agree4_def)
  have "(\<forall>x y. x < N_blocks t \<and> y < N_blocks t \<longrightarrow>
               (\<exists>t'. makeChain4 t x y = Some t' \<and>
                     A t' ! (first_of4 bi + 3) = A t ! (first_of4 bi + 3))) \<and>
            (\<forall>x < N_blocks t.
               \<exists>t'. breakChain4 t x = Some t' \<and>
                    A t' ! (first_of4 bi + 3) = A t ! (first_of4 bi + 3)) \<and>
            (\<exists>t' r. extend4 t = Some (t', r) \<and>
                    A t' ! (first_of4 bi + 3) = A t ! (first_of4 bi + 3)) \<and>
            A t ! (first_of4 bi + 3) = data e ! (first_of4 bi + 3) \<and>
            read4 t (first_of4 bi + 3) =
              Some (t\<lparr>ctr := (ctr t)\<lparr>reads := reads (ctr t) + 1\<rparr>\<rparr>,
                    Inr (A t ! (first_of4 bi + 3))) \<and>
            sv_read e (first_of4 bi + 3) =
              Some (e\<lparr>sv_ctr := (sv_ctr e)\<lparr>reads := reads (sv_ctr e) + 1\<rparr>\<rparr>,
                    Inr (A t ! (first_of4 bi + 3)))"
    if h: "b t \<le> bi \<and> chainedTo_block4 t bi = Some k \<and> 0 \<le> k" for bi k
  proof -
    from h have h': "b t \<le> bi" "chainedTo_block4 t bi = Some k" "0 \<le> k" by simp_all
    note kept = sec4_last_cell_kept [OF wf h']
    from sec4_cell_logical [OF wf h']
    have i: "first_of4 bi + 3 < N t"
      and l: "logical4 t (first_of4 bi + 3) = A t ! (first_of4 bi + 3)" by simp_all
    have c: "A t ! (first_of4 bi + 3) = data e ! (first_of4 bi + 3)" using lg i l by simp
    have r: "read4 t (first_of4 bi + 3) =
              Some (t\<lparr>ctr := (ctr t)\<lparr>reads := reads (ctr t) + 1\<rparr>\<rparr>,
                    Inr (A t ! (first_of4 bi + 3)))"
      using read4_ok [OF wf i] l by simp
    have r': "sv_read e (first_of4 bi + 3) =
              Some (e\<lparr>sv_ctr := (sv_ctr e)\<lparr>reads := reads (sv_ctr e) + 1\<rparr>\<rparr>,
                    Inr (A t ! (first_of4 bi + 3)))"
      using sv_read_ok [of "first_of4 bi + 3" e] i sv c by simp
    from kept c r r' show ?thesis by blast
  qed
  with t(1,2) show "\<exists>t e. run4 t0 ys = Some t \<and> run_sv e0 ys = Some e \<and>
         (\<forall>bi k. b t \<le> bi \<and> chainedTo_block4 t bi = Some k \<and> 0 \<le> k \<longrightarrow>
            (\<forall>x y. x < N_blocks t \<and> y < N_blocks t \<longrightarrow>
               (\<exists>t'. makeChain4 t x y = Some t' \<and>
                     A t' ! (first_of4 bi + 3) = A t ! (first_of4 bi + 3))) \<and>
            (\<forall>x < N_blocks t.
               \<exists>t'. breakChain4 t x = Some t' \<and>
                    A t' ! (first_of4 bi + 3) = A t ! (first_of4 bi + 3)) \<and>
            (\<exists>t' r. extend4 t = Some (t', r) \<and>
                    A t' ! (first_of4 bi + 3) = A t ! (first_of4 bi + 3)) \<and>
            A t ! (first_of4 bi + 3) = data e ! (first_of4 bi + 3) \<and>
            read4 t (first_of4 bi + 3) =
              Some (t\<lparr>ctr := (ctr t)\<lparr>reads := reads (ctr t) + 1\<rparr>\<rparr>,
                    Inr (A t ! (first_of4 bi + 3))) \<and>
            sv_read e (first_of4 bi + 3) =
              Some (e\<lparr>sv_ctr := (sv_ctr e)\<lparr>reads := reads (sv_ctr e) + 1\<rparr>\<rparr>,
                    Inr (A t ! (first_of4 bi + 3))))"
    by blast
qed

theorem C5_last_cell_in_place_witness:
  "InPlaceArraySec3_new ex_platform 4 = Inr (projr (InPlaceArraySec3_new ex_platform 4)) \<and>
   StdVectorWrapper_new ex_platform 4 = Inr (projr (StdVectorWrapper_new ex_platform 4)) \<and>
   run3 (projr (InPlaceArraySec3_new ex_platform 4)) [Init 0, Write 2 5, Write 3 6] =
     Some ex_written3 \<and>
   b ex_written3 \<le> 1 \<and> chainedTo_block3 ex_written3 1 = Some 0 \<and> (0::int) \<le> 0 \<and>
   0 < N_blocks ex_written3 \<and> 1 < N_blocks ex_written3 \<and>
   A ex_written3 ! (first_of3 1 + 1) = 6 \<and>
   (\<exists>s'. makeChain3 ex_written3 0 1 = Some s' \<and>
         A s' ! (first_of3 1 + 1) = A ex_written3 ! (first_of3 1 + 1)) \<and>
   (\<exists>s'. breakChain3 ex_written3 0 = Some s' \<and>
         A s' ! (first_of3 1 + 1) = A ex_written3 ! (first_of3 1 + 1)) \<and>
   (\<exists>s' r. extend3 ex_written3 = Some (s', r) \<and>
         A s' ! (first_of3 1 + 1) = A ex_written3 ! (first_of3 1 + 1)) \<and>
   read3 ex_written3 (first_of3 1 + 1) =
     Some (ex_written3\<lparr>ctr := (ctr ex_written3)\<lparr>reads := reads (ctr ex_written3) + 1\<rparr>\<rparr>,
           Inr (A ex_written3 ! (first_of3 1 + 1))) \<and>
   (\<exists>d. run_sv (projr (StdVectorWrapper_new ex_platform 4)) [Init 0, Write 2 5, Write 3 6] =
           Some d \<and>
        A ex_written3 ! (first_of3 1 + 1) = data d ! (first_of3 1 + 1) \<and>
        sv_read d (first_of3 1 + 1) =
          Some (d\<lparr>sv_ctr := (sv_ctr d)\<lparr>reads := reads (sv_ctr d) + 1\<rparr>\<rparr>,
                Inr (A ex_written3 ! (first_of3 1 + 1)))) \<and>
   InPlaceArraySec4_new ex_platform 8 = Inr (projr (InPlaceArraySec4_new ex_platform 8)) \<and>
   StdVectorWrapper_new ex_platform 8 = Inr (projr (StdVectorWrapper_new ex_platform 8)) \<and>
   run4 (projr (InPlaceArraySec4_new ex_platform 8)) [Init 7, Write 7 1] = Some ex_chained4 \<and>
   b ex_chained4 \<le> 1 \<and> chainedTo_block4 ex_chained4 1 = Some 0 \<and>
   0 < N_blocks ex_chained4 \<and> 1 < N_blocks ex_chained4 \<and>
   A ex_chained4 ! (first_of4 1 + 3) = 1 \<and>
   (\<exists>t'. makeChain4 ex_chained4 0 1 = Some t' \<and>
         A t' ! (first_of4 1 + 3) = A ex_chained4 ! (first_of4 1 + 3)) \<and>
   (\<exists>t'. breakChain4 ex_chained4 0 = Some t' \<and>
         A t' ! (first_of4 1 + 3) = A ex_chained4 ! (first_of4 1 + 3)) \<and>
   (\<exists>t' r. extend4 ex_chained4 = Some (t', r) \<and>
         A t' ! (first_of4 1 + 3) = A ex_chained4 ! (first_of4 1 + 3)) \<and>
   read4 ex_chained4 (first_of4 1 + 3) =
     Some (ex_chained4\<lparr>ctr := (ctr ex_chained4)\<lparr>reads := reads (ctr ex_chained4) + 1\<rparr>\<rparr>,
           Inr (A ex_chained4 ! (first_of4 1 + 3))) \<and>
   (\<exists>e. run_sv (projr (StdVectorWrapper_new ex_platform 8)) [Init 7, Write 7 1] = Some e \<and>
        A ex_chained4 ! (first_of4 1 + 3) = data e ! (first_of4 1 + 3) \<and>
        sv_read e (first_of4 1 + 3) =
          Some (e\<lparr>sv_ctr := (sv_ctr e)\<lparr>reads := reads (sv_ctr e) + 1\<rparr>\<rparr>,
                Inr (A ex_chained4 ! (first_of4 1 + 3))))"
proof -
  let ?s0 = "projr (InPlaceArraySec3_new ex_platform 4)"
    and ?t0 = "projr (InPlaceArraySec4_new ex_platform 8)"
  let ?d0 = "projr (StdVectorWrapper_new ex_platform 4)"
    and ?e0 = "projr (StdVectorWrapper_new ex_platform 8)"
  let ?xs = "[Init 0, Write 2 5, Write 3 6]" and ?ys = "[Init 7, Write 7 1]"
  have m3: "StdVectorWrapper_new ex_platform 4 = Inr ?d0"
    by (simp add: StdVectorWrapper_new_def vector_new_def ex_platform_def)
  have m4: "StdVectorWrapper_new ex_platform 8 = Inr ?e0"
    by (simp add: StdVectorWrapper_new_def vector_new_def ex_platform_def)
  have n3: "InPlaceArraySec3_new ex_platform 4 = Inr ?s0"
    by (simp add: InPlaceArraySec3_new_def vector_new_def ex_platform_def)
  have n4: "InPlaceArraySec4_new ex_platform 8 = Inr ?t0"
    by (simp add: InPlaceArraySec4_new_def vector_new_def ex_platform_def)
  have h3: "b ex_written3 \<le> 1 \<and> chainedTo_block3 ex_written3 1 = Some 0 \<and> (0::int) \<le> 0"
    by code_simp
  have h4: "b ex_chained4 \<le> 1 \<and> chainedTo_block4 ex_chained4 1 = Some 0 \<and> (0::int) \<le> 0"
    by code_simp
  have nb: "0 < N_blocks ex_written3" "1 < N_blocks ex_written3"
    "0 < N_blocks ex_chained4" "1 < N_blocks ex_chained4"
    by (simp_all add: ex_written3_def ex_chained4_def)
  have v: "A ex_written3 ! (first_of3 1 + 1) = 6" "A ex_chained4 ! (first_of4 1 + 3) = 1"
    by (simp_all add: ex_written3_def ex_chained4_def first_of4)
  note t = C5_last_cell_in_place [where pf = ex_platform and pf' = ex_platform and n = 4
      and ?s0.0 = ?s0 and ?d0.0 = ?d0 and xs = ?xs and m = 8 and ?t0.0 = ?t0 and ?e0.0 = ?e0
      and ys = ?ys]
  from t [THEN conjunct1, THEN mp, OF conjI [OF n3 m3]]
  obtain s d where
    d: "run3 ?s0 ?xs = Some s" "run_sv ?d0 ?xs = Some d"
    and 3: "\<forall>bi k. b s \<le> bi \<and> chainedTo_block3 s bi = Some k \<and> 0 \<le> k \<longrightarrow>
            (\<forall>x y. x < N_blocks s \<and> y < N_blocks s \<longrightarrow>
               (\<exists>s'. makeChain3 s x y = Some s' \<and>
                     A s' ! (first_of3 bi + 1) = A s ! (first_of3 bi + 1))) \<and>
            (\<forall>x < N_blocks s.
               \<exists>s'. breakChain3 s x = Some s' \<and>
                    A s' ! (first_of3 bi + 1) = A s ! (first_of3 bi + 1)) \<and>
            (\<exists>s' r. extend3 s = Some (s', r) \<and>
                    A s' ! (first_of3 bi + 1) = A s ! (first_of3 bi + 1)) \<and>
            A s ! (first_of3 bi + 1) = data d ! (first_of3 bi + 1) \<and>
            read3 s (first_of3 bi + 1) =
              Some (s\<lparr>ctr := (ctr s)\<lparr>reads := reads (ctr s) + 1\<rparr>\<rparr>,
                    Inr (A s ! (first_of3 bi + 1))) \<and>
            sv_read d (first_of3 bi + 1) =
              Some (d\<lparr>sv_ctr := (sv_ctr d)\<lparr>reads := reads (sv_ctr d) + 1\<rparr>\<rparr>,
                    Inr (A s ! (first_of3 bi + 1)))"
    by blast
  from t [THEN conjunct2, THEN mp, OF conjI [OF n4 m4]]
  obtain u e where
    e: "run4 ?t0 ?ys = Some u" "run_sv ?e0 ?ys = Some e"
    and 4: "\<forall>bi k. b u \<le> bi \<and> chainedTo_block4 u bi = Some k \<and> 0 \<le> k \<longrightarrow>
            (\<forall>x y. x < N_blocks u \<and> y < N_blocks u \<longrightarrow>
               (\<exists>t'. makeChain4 u x y = Some t' \<and>
                     A t' ! (first_of4 bi + 3) = A u ! (first_of4 bi + 3))) \<and>
            (\<forall>x < N_blocks u.
               \<exists>t'. breakChain4 u x = Some t' \<and>
                    A t' ! (first_of4 bi + 3) = A u ! (first_of4 bi + 3)) \<and>
            (\<exists>t' r. extend4 u = Some (t', r) \<and>
                    A t' ! (first_of4 bi + 3) = A u ! (first_of4 bi + 3)) \<and>
            A u ! (first_of4 bi + 3) = data e ! (first_of4 bi + 3) \<and>
            read4 u (first_of4 bi + 3) =
              Some (u\<lparr>ctr := (ctr u)\<lparr>reads := reads (ctr u) + 1\<rparr>\<rparr>,
                    Inr (A u ! (first_of4 bi + 3))) \<and>
            sv_read e (first_of4 bi + 3) =
              Some (e\<lparr>sv_ctr := (sv_ctr e)\<lparr>reads := reads (sv_ctr e) + 1\<rparr>\<rparr>,
                    Inr (A u ! (first_of4 bi + 3)))"
    by blast
  have s: "s = ex_written3" using d(1) ex_written3_reached by simp
  have u: "u = ex_chained4" using e(1) ex_chained4_reached by simp
  note 3 = 3 [unfolded s] and 4 = 4 [unfolded u]
  from 3 [rule_format, of 1 0] h3 nb
  have a: "(\<exists>s'. makeChain3 ex_written3 0 1 = Some s' \<and>
         A s' ! (first_of3 1 + 1) = A ex_written3 ! (first_of3 1 + 1)) \<and>
   (\<exists>s'. breakChain3 ex_written3 0 = Some s' \<and>
         A s' ! (first_of3 1 + 1) = A ex_written3 ! (first_of3 1 + 1)) \<and>
   (\<exists>s' r. extend3 ex_written3 = Some (s', r) \<and>
         A s' ! (first_of3 1 + 1) = A ex_written3 ! (first_of3 1 + 1)) \<and>
   read3 ex_written3 (first_of3 1 + 1) =
     Some (ex_written3\<lparr>ctr := (ctr ex_written3)\<lparr>reads := reads (ctr ex_written3) + 1\<rparr>\<rparr>,
           Inr (A ex_written3 ! (first_of3 1 + 1))) \<and>
   A ex_written3 ! (first_of3 1 + 1) = data d ! (first_of3 1 + 1) \<and>
   sv_read d (first_of3 1 + 1) =
          Some (d\<lparr>sv_ctr := (sv_ctr d)\<lparr>reads := reads (sv_ctr d) + 1\<rparr>\<rparr>,
                Inr (A ex_written3 ! (first_of3 1 + 1)))"
    by blast
  from 4 [rule_format, of 1 0] h4 nb
  have c: "(\<exists>t'. makeChain4 ex_chained4 0 1 = Some t' \<and>
         A t' ! (first_of4 1 + 3) = A ex_chained4 ! (first_of4 1 + 3)) \<and>
   (\<exists>t'. breakChain4 ex_chained4 0 = Some t' \<and>
         A t' ! (first_of4 1 + 3) = A ex_chained4 ! (first_of4 1 + 3)) \<and>
   (\<exists>t' r. extend4 ex_chained4 = Some (t', r) \<and>
         A t' ! (first_of4 1 + 3) = A ex_chained4 ! (first_of4 1 + 3)) \<and>
   read4 ex_chained4 (first_of4 1 + 3) =
     Some (ex_chained4\<lparr>ctr := (ctr ex_chained4)\<lparr>reads := reads (ctr ex_chained4) + 1\<rparr>\<rparr>,
           Inr (A ex_chained4 ! (first_of4 1 + 3))) \<and>
   A ex_chained4 ! (first_of4 1 + 3) = data e ! (first_of4 1 + 3) \<and>
   sv_read e (first_of4 1 + 3) =
          Some (e\<lparr>sv_ctr := (sv_ctr e)\<lparr>reads := reads (sv_ctr e) + 1\<rparr>\<rparr>,
                Inr (A ex_chained4 ! (first_of4 1 + 3)))"
    by blast
  from a c h3 h4 nb n3 n4 m3 m4 v d(2) e(2) ex_written3_reached ex_chained4_reached
  show ?thesis by blast
qed

end
